theory Spec2Isabelle
  imports Complex_Main "HOL-Library.Multiset" "HOL-Library.Sublist"
begin

unbundle bit_operations_syntax

section \<open>Data model (internal/domain/models.go)\<close>

text \<open>
  Go's \<open>int\<close> and \<open>Money\<close> (an \<open>int64\<close>) are modelled by \<open>int\<close>: the validated
  input bounds (at most 22 orders, payout at most \<open>10^11\<close>, weight at most \<open>10^6\<close>)
  keep every total far below \<open>2^63\<close>, so no addition of the source wraps there.
  A \<open>time.Time\<close> is the instant it denotes, in nanoseconds. Subset masks and loop
  indices are never negative and are modelled by \<open>nat\<close>. A \<open>float64\<close> is modelled
  by the rational number it denotes and float arithmetic by exact arithmetic.
  The field \<open>ComputeTimeMs\<close> (wall-clock time) is left out.
\<close>

record Order =
  ID :: string
  Payout :: int
  WeightLbs :: int
  VolumeCuft :: int
  Origin :: string
  Destination :: string
  PickupDate :: int
  DeliveryDate :: int
  IsHazmat :: bool

record Truck =
  TruckID :: string
  MaxWeightLbs :: int
  MaxVolumeCuft :: int

definition Route :: "Order \<Rightarrow> string" where
  "Route o1 = Origin o1 @ ''->'' @ Destination o1"

section \<open>Constraint checker (internal/domain/constraints.go)\<close>

definition timeWindowsCompatible :: "Order \<Rightarrow> Order \<Rightarrow> bool" where
  "timeWindowsCompatible order1 order2 = True"

definition CanCombine :: "Order \<Rightarrow> Order \<Rightarrow> bool" where
  "CanCombine order1 order2 =
     (if Route order1 \<noteq> Route order2 then False
      else if IsHazmat order1 \<noteq> IsHazmat order2 then False
      else if \<not> timeWindowsCompatible order1 order2 then False
      else True)"

definition CanFit :: "Truck \<Rightarrow> int \<Rightarrow> int \<Rightarrow> Order \<Rightarrow> bool" where
  "CanFit truck currentWeight currentVolume order =
     (let newWeight = currentWeight + WeightLbs order;
          newVolume = currentVolume + VolumeCuft order
      in newWeight \<le> MaxWeightLbs truck \<and> newVolume \<le> MaxVolumeCuft truck)"

definition ValidateOrderSet :: "Order list \<Rightarrow> bool" where
  "ValidateOrderSet orders =
     (if length orders = 0 then True
      else list_all (\<lambda>i. list_all (\<lambda>j. CanCombine (orders ! i) (orders ! j))
                              [i + 1 ..< length orders])
             [0 ..< length orders])"

definition FilterFeasibleOrders :: "Truck \<Rightarrow> Order list \<Rightarrow> Order list" where
  "FilterFeasibleOrders truck orders =
     filter (\<lambda>order. \<not> (WeightLbs order > MaxWeightLbs truck
                        \<or> VolumeCuft order > MaxVolumeCuft truck)) orders"







section \<open>Optimizers (internal/algorithm/optimizer.go)\<close>

record OptimizationResult =
  SelectedOrders :: "Order list"
  TotalPayout :: int
  TotalWeight :: int
  TotalVolume :: int

definition emptyResult :: OptimizationResult where
  "emptyResult = \<lparr>SelectedOrders = [], TotalPayout = 0, TotalWeight = 0, TotalVolume = 0\<rparr>"

subsection \<open>DPOptimizer\<close>

text \<open>
  The four flat arrays of the source, indexed by subset mask. With \<open>n\<close> orders left
  after filtering they have \<open>1 << n\<close> entries. On a 64-bit platform \<open>1 << 63\<close> is
  negative, so \<open>make\<close> panics, and \<open>1 << n\<close> is \<open>0\<close> from \<open>n = 64\<close> on, so the
  write to \<open>dpValid[0]\<close> panics; below that the model assumes the allocation succeeds.
\<close>

datatype panic = MakeSliceLenOutOfRange | IndexOutOfRange

record dp_table =
  dpPayout :: "int list"
  dpWeight :: "int list"
  dpVolume :: "int list"
  dpValid :: "bool list"

definition incompatibleMask :: "Order list \<Rightarrow> nat list" where
  "incompatibleMask orders =
     map (\<lambda>i. fold (\<lambda>j m. if i \<noteq> j \<and> \<not> CanCombine (orders ! i) (orders ! j)
                            then m OR push_bit j 1 else m)
                  [0 ..< length orders] 0)
         [0 ..< length orders]"

definition dp_try ::
  "Truck \<Rightarrow> Order list \<Rightarrow> nat list \<Rightarrow> nat \<Rightarrow> int \<Rightarrow> int \<Rightarrow> nat \<Rightarrow> dp_table \<Rightarrow> dp_table" where
  "dp_try truck orders inc msk currentWeight currentVolume i tbl =
     (if msk AND push_bit i 1 \<noteq> 0 then tbl
      else if msk AND inc ! i \<noteq> 0 then tbl
      else
        let order = orders ! i;
            newWeight = currentWeight + WeightLbs order;
            newVolume = currentVolume + VolumeCuft order
        in if newWeight > MaxWeightLbs truck \<or> newVolume > MaxVolumeCuft truck then tbl
           else
             let newMask = msk OR push_bit i 1;
                 newPayout = dpPayout tbl ! msk + Payout order
             in if \<not> dpValid tbl ! newMask \<or> newPayout > dpPayout tbl ! newMask
                then \<lparr>dpPayout = (dpPayout tbl)[newMask := newPayout],
                      dpWeight = (dpWeight tbl)[newMask := newWeight],
                      dpVolume = (dpVolume tbl)[newMask := newVolume],
                      dpValid = (dpValid tbl)[newMask := True]\<rparr>
                else tbl)"

definition dp_visit :: "Truck \<Rightarrow> Order list \<Rightarrow> nat list \<Rightarrow> nat \<Rightarrow> dp_table \<Rightarrow> dp_table" where
  "dp_visit truck orders inc msk tbl =
     (if \<not> dpValid tbl ! msk then tbl
      else
        let currentWeight = dpWeight tbl ! msk;
            currentVolume = dpVolume tbl ! msk
        in fold (dp_try truck orders inc msk currentWeight currentVolume)
                [0 ..< length orders] tbl)"

definition dp_init :: "nat \<Rightarrow> dp_table" where
  "dp_init maxStates =
     \<lparr>dpPayout = replicate maxStates 0,
      dpWeight = replicate maxStates 0,
      dpVolume = replicate maxStates 0,
      dpValid = (replicate maxStates False)[0 := True]\<rparr>"

definition dp_sweep :: "Truck \<Rightarrow> Order list \<Rightarrow> dp_table" where
  "dp_sweep truck orders =
     (let maxStates = push_bit (length orders) 1
      in fold (dp_visit truck orders (incompatibleMask orders)) [0 ..< maxStates]
              (dp_init maxStates))"

definition dp_best :: "dp_table \<Rightarrow> nat \<Rightarrow> int \<times> nat" where
  "dp_best tbl maxStates =
     fold (\<lambda>msk (bestPayout, bestMask).
             if dpValid tbl ! msk \<and> dpPayout tbl ! msk > bestPayout
             then (dpPayout tbl ! msk, msk) else (bestPayout, bestMask))
          [0 ..< maxStates] (0, 0)"

definition extractOrders :: "nat \<Rightarrow> Order list \<Rightarrow> Order list" where
  "extractOrders msk orders =
     map (\<lambda>i. orders ! i) (filter (\<lambda>i. msk AND push_bit i 1 \<noteq> 0) [0 ..< length orders])"

definition DPOptimizer_Optimize :: "Truck \<Rightarrow> Order list \<Rightarrow> panic + OptimizationResult" where
  "DPOptimizer_Optimize truck orders0 =
     (if length orders0 = 0 then Inr emptyResult
      else
        let orders = FilterFeasibleOrders truck orders0
        in if length orders = 0 then Inr emptyResult
           else if length orders = 63 then Inl MakeSliceLenOutOfRange
           else if length orders > 63 then Inl IndexOutOfRange
           else
             let tbl = dp_sweep truck orders;
                 (bestPayout, bestMask) = dp_best tbl (push_bit (length orders) 1)
             in Inr \<lparr>SelectedOrders = extractOrders bestMask orders,
                      TotalPayout = bestPayout,
                      TotalWeight = dpWeight tbl ! bestMask,
                      TotalVolume = dpVolume tbl ! bestMask\<rparr>)"

subsection \<open>GreedyOptimizer\<close>

text \<open>
  \<open>sortByValueDensity\<close> compares two \<open>float64\<close> quotients. The comparison is a
  parameter \<open>gt\<close> of the model (\<open>gt a b\<close> stands for \<open>density a > density b\<close>), so
  that what is proved of the greedy optimizer holds whatever the rounding of the
  quotients does; \<open>density_gt\<close> is the comparison of the exact quotients.
\<close>

definition density_gt :: "Order \<Rightarrow> Order \<Rightarrow> bool" where
  "density_gt a b =
     ((of_int (Payout a) :: rat) / of_int (WeightLbs a) > of_int (Payout b) / of_int (WeightLbs b))"

definition sortByValueDensity_by :: "(Order \<Rightarrow> Order \<Rightarrow> bool) \<Rightarrow> Order list \<Rightarrow> Order list" where
  "sortByValueDensity_by gt orders =
     fold (\<lambda>i sorted.
             fold (\<lambda>j sorted. if gt (sorted ! j) (sorted ! i)
                               then sorted[i := sorted ! j, j := sorted ! i] else sorted)
                  [i + 1 ..< length sorted] sorted)
          [0 ..< length orders - 1] orders"

definition greedy_step :: "Truck \<Rightarrow> Order \<Rightarrow> OptimizationResult \<Rightarrow> OptimizationResult" where
  "greedy_step truck order r =
     (if \<not> CanFit truck (TotalWeight r) (TotalVolume r) order then r
      else if list_all (\<lambda>selectedOrder. CanCombine order selectedOrder) (SelectedOrders r)
      then \<lparr>SelectedOrders = SelectedOrders r @ [order],
            TotalPayout = TotalPayout r + Payout order,
            TotalWeight = TotalWeight r + WeightLbs order,
            TotalVolume = TotalVolume r + VolumeCuft order\<rparr>
      else r)"

definition GreedyOptimizer_Optimize_by ::
  "(Order \<Rightarrow> Order \<Rightarrow> bool) \<Rightarrow> Truck \<Rightarrow> Order list \<Rightarrow> OptimizationResult" where
  "GreedyOptimizer_Optimize_by gt truck orders0 =
     (let orders = FilterFeasibleOrders truck orders0;
          sortedOrders = sortByValueDensity_by gt orders
      in fold (greedy_step truck) sortedOrders emptyResult)"

definition GreedyOptimizer_Optimize :: "Truck \<Rightarrow> Order list \<Rightarrow> OptimizationResult" where
  "GreedyOptimizer_Optimize = GreedyOptimizer_Optimize_by density_gt"

subsection \<open>BacktrackingOptimizer\<close>

text \<open>The best-so-far fields of the optimizer struct, threaded through the recursion.\<close>

record BacktrackingOptimizer =
  bestPayout :: int
  bestOrders :: "Order list"
  bestWeight :: int
  bestVolume :: int

function backtrack ::
  "Truck \<Rightarrow> Order list \<Rightarrow> Order list \<Rightarrow> nat \<Rightarrow> int \<Rightarrow> int \<Rightarrow> int
     \<Rightarrow> BacktrackingOptimizer \<Rightarrow> BacktrackingOptimizer" where
  "backtrack truck orders currentOrders index currentPayout currentWeight currentVolume b =
     (let b1 = (if currentPayout > bestPayout b
                then \<lparr>bestPayout = currentPayout, bestOrders = currentOrders,
                      bestWeight = currentWeight, bestVolume = currentVolume\<rparr>
                else b)
      in if index \<ge> length orders then b1
         else
           let remainingPayout = sum_list (map Payout (drop index orders))
           in if currentPayout + remainingPayout \<le> bestPayout b1 then b1
              else
                let order = orders ! index;
                    newWeight = currentWeight + WeightLbs order;
                    newVolume = currentVolume + VolumeCuft order;
                    canFit = (newWeight \<le> MaxWeightLbs truck \<and> newVolume \<le> MaxVolumeCuft truck);
                    b2 = (if canFit \<and> list_all (\<lambda>selected. CanCombine order selected) currentOrders
                          then backtrack truck orders (currentOrders @ [order]) (index + 1)
                                 (currentPayout + Payout order) newWeight newVolume b1
                          else b1)
                in backtrack truck orders currentOrders (index + 1)
                     currentPayout currentWeight currentVolume b2)"
  by pat_completeness auto
termination
  by (relation "measure (\<lambda>(truck, orders, currentOrders, index, p, w, v, b). length orders - index)")
     auto

declare backtrack.simps [simp del]

definition BacktrackingOptimizer_Optimize :: "Truck \<Rightarrow> Order list \<Rightarrow> OptimizationResult" where
  "BacktrackingOptimizer_Optimize truck orders0 =
     (let orders = FilterFeasibleOrders truck orders0;
          b = backtrack truck orders [] 0 0 0 0
                \<lparr>bestPayout = 0, bestOrders = [], bestWeight = 0, bestVolume = 0\<rparr>
      in \<lparr>SelectedOrders = bestOrders b, TotalPayout = bestPayout b,
           TotalWeight = bestWeight b, TotalVolume = bestVolume b\<rparr>)"

subsection \<open>HybridOptimizer\<close>

definition maxDPSize :: nat where
  "maxDPSize = 22"

definition HybridOptimizer_Optimize :: "Truck \<Rightarrow> Order list \<Rightarrow> panic + OptimizationResult" where
  "HybridOptimizer_Optimize truck orders =
     (if length orders \<le> maxDPSize then DPOptimizer_Optimize truck orders
      else Inr (GreedyOptimizer_Optimize truck orders))"

section \<open>Orchestrator (service layer)\<close>

text \<open>
  The \<open>Optimizer\<close> interface has four implementations; the service holds one of them.
  Go's conversion of a \<open>float64\<close> to an integer type drops the fraction.
\<close>

datatype Optimizer = DPOpt | BacktrackingOpt | GreedyOpt | HybridOpt

definition Optimize :: "Optimizer \<Rightarrow> Truck \<Rightarrow> Order list \<Rightarrow> panic + OptimizationResult" where
  "Optimize opt truck orders =
     (case opt of
        DPOpt \<Rightarrow> DPOptimizer_Optimize truck orders
      | BacktrackingOpt \<Rightarrow> Inr (BacktrackingOptimizer_Optimize truck orders)
      | GreedyOpt \<Rightarrow> Inr (GreedyOptimizer_Optimize truck orders)
      | HybridOpt \<Rightarrow> HybridOptimizer_Optimize truck orders)"

record OptimizerService =
  optimizer :: Optimizer

definition NewOptimizerService :: OptimizerService where
  "NewOptimizerService = \<lparr>optimizer = HybridOpt\<rparr>"

record OptimizationConfig =
  Objective :: string
  RevenueWeight :: rat
  UtilizationWeight :: rat
  Algorithm :: string

record OptimizeResponse =
  RespTruckID :: string
  SelectedOrderIDs :: "string list"
  RespTotalPayoutCents :: int
  RespTotalWeightLbs :: int
  RespTotalVolumeCuft :: int
  RespUtilizationWeightPercent :: rat
  RespUtilizationVolumePercent :: rat

record ParetoSolution =
  OrderIDs :: "string list"
  TotalPayoutCents :: int
  TotalWeightLbs :: int
  TotalVolumeCuft :: int
  UtilizationWeightPercent :: rat
  UtilizationVolumePercent :: rat
  Score :: rat

definition float_to_int :: "rat \<Rightarrow> int" where
  "float_to_int x = (if x \<ge> 0 then \<lfloor>x\<rfloor> else \<lceil>x\<rceil>)"

definition roundToTwoDecimals :: "rat \<Rightarrow> rat" where
  "roundToTwoDecimals v = of_int (float_to_int (v * 100 + 1 / 2)) / 100"

definition selectOptimizer :: "OptimizerService \<Rightarrow> OptimizationConfig option \<Rightarrow> nat \<Rightarrow> Optimizer" where
  "selectOptimizer s config numOrders =
     (case config of
        None \<Rightarrow> optimizer s
      | Some c \<Rightarrow>
          if Algorithm c = ''auto'' then optimizer s
          else if Algorithm c = ''dp'' then DPOpt
          else if Algorithm c = ''backtracking'' then BacktrackingOpt
          else if Algorithm c = ''greedy'' then GreedyOpt
          else optimizer s)"

definition preprocessOrders :: "Truck \<Rightarrow> Order list \<Rightarrow> Order list" where
  "preprocessOrders truck orders = FilterFeasibleOrders truck orders"

definition weightUtilOf :: "Truck \<Rightarrow> OptimizationResult \<Rightarrow> rat" where
  "weightUtilOf truck result =
     (if MaxWeightLbs truck > 0
      then (of_int (TotalWeight result) / of_int (MaxWeightLbs truck)) * 100 else 0)"

definition volumeUtilOf :: "Truck \<Rightarrow> OptimizationResult \<Rightarrow> rat" where
  "volumeUtilOf truck result =
     (if MaxVolumeCuft truck > 0
      then (of_int (TotalVolume result) / of_int (MaxVolumeCuft truck)) * 100 else 0)"

definition buildResponse :: "Truck \<Rightarrow> OptimizationResult \<Rightarrow> OptimizeResponse" where
  "buildResponse truck result =
     \<lparr>RespTruckID = TruckID truck,
      SelectedOrderIDs = map ID (SelectedOrders result),
      RespTotalPayoutCents = TotalPayout result,
      RespTotalWeightLbs = TotalWeight result,
      RespTotalVolumeCuft = TotalVolume result,
      RespUtilizationWeightPercent = roundToTwoDecimals (weightUtilOf truck result),
      RespUtilizationVolumePercent = roundToTwoDecimals (volumeUtilOf truck result)\<rparr>"

text \<open>
  The scalarized score is computed in \<open>float64\<close> and converted to \<open>Money\<close>. The model
  computes it exactly; for a truck capacity of 0 the source divides by zero in floating
  point, which the model does not reproduce (the input contract requires positive
  capacities).
\<close>

definition weightedOrder :: "Truck \<Rightarrow> rat \<Rightarrow> rat \<Rightarrow> Order \<Rightarrow> Order" where
  "weightedOrder truck revenueWeight utilizationWeight order =
     (let revenue = of_int (Payout order);
          utilization = (of_int (WeightLbs order) / of_int (MaxWeightLbs truck)
                         + of_int (VolumeCuft order) / of_int (MaxVolumeCuft truck)) / 2;
          score = revenueWeight * revenue + utilizationWeight * utilization * 10000
      in order\<lparr>Payout := float_to_int score\<rparr>)"

definition optimizeWithWeights ::
  "OptimizerService \<Rightarrow> Truck \<Rightarrow> Order list \<Rightarrow> rat \<Rightarrow> rat \<Rightarrow> panic + OptimizationResult" where
  "optimizeWithWeights s truck orders revenueWeight utilizationWeight =
     (let weighted = map (weightedOrder truck revenueWeight utilizationWeight) orders
      in Optimize (optimizer s) truck weighted)"

text \<open>
  \<open>OptimizeLoad\<close> from the point where \<open>request.Validate\<close> and \<open>request.ToDomain\<close>
  have succeeded and delivered the truck, the orders and the optional configuration.
\<close>

definition OptimizeLoad ::
  "OptimizerService \<Rightarrow> Truck \<Rightarrow> Order list \<Rightarrow> OptimizationConfig option \<Rightarrow> panic + OptimizeResponse" where
  "OptimizeLoad s truck orders0 config =
     (let orders = preprocessOrders truck orders0;
          opt = selectOptimizer s config (length orders);
          result =
            (case config of
               Some c \<Rightarrow>
                 if RevenueWeight c \<noteq> 1 \<or> UtilizationWeight c \<noteq> 0
                 then optimizeWithWeights s truck orders (RevenueWeight c) (UtilizationWeight c)
                 else Optimize opt truck orders
             | None \<Rightarrow> Optimize opt truck orders)
      in case result of Inl e \<Rightarrow> Inl e | Inr r \<Rightarrow> Inr (buildResponse truck r))"

definition paretoWeights :: "(rat \<times> rat) list" where
  "paretoWeights = [(1, 0), (8 / 10, 2 / 10), (6 / 10, 4 / 10), (4 / 10, 6 / 10), (2 / 10, 8 / 10)]"

definition selectionKey :: "OptimizationResult \<Rightarrow> string" where
  "selectionKey result = concat (map (\<lambda>order. ID order @ '','') (SelectedOrders result))"

definition paretoSolutionOf :: "Truck \<Rightarrow> rat \<times> rat \<Rightarrow> OptimizationResult \<Rightarrow> ParetoSolution" where
  "paretoSolutionOf truck w result =
     (let weightUtil = weightUtilOf truck result;
          volumeUtil = volumeUtilOf truck result;
          score = fst w * of_int (TotalPayout result) + snd w * (weightUtil + volumeUtil) * 1000
      in \<lparr>OrderIDs = map ID (SelectedOrders result),
           TotalPayoutCents = TotalPayout result,
           TotalWeightLbs = TotalWeight result,
           TotalVolumeCuft = TotalVolume result,
           UtilizationWeightPercent = roundToTwoDecimals weightUtil,
           UtilizationVolumePercent = roundToTwoDecimals volumeUtil,
           Score = roundToTwoDecimals score\<rparr>)"

text \<open>The loop over the weight vectors, with its \<open>continue\<close> and its \<open>break\<close>.\<close>

fun pareto_loop ::
  "OptimizerService \<Rightarrow> Truck \<Rightarrow> Order list \<Rightarrow> int \<Rightarrow> (rat \<times> rat) list
     \<Rightarrow> ParetoSolution list \<Rightarrow> (string \<Rightarrow> bool) \<Rightarrow> panic + ParetoSolution list" where
  "pareto_loop s truck orders maxSolutions [] solutions seen = Inr solutions"
| "pareto_loop s truck orders maxSolutions (w # ws) solutions seen =
     (case optimizeWithWeights s truck orders (fst w) (snd w) of
        Inl e \<Rightarrow> Inl e
      | Inr result \<Rightarrow>
          let key = selectionKey result
          in if seen key then pareto_loop s truck orders maxSolutions ws solutions seen
             else
               let solutions' = solutions @ [paretoSolutionOf truck w result]
               in if int (length solutions') \<ge> maxSolutions then Inr solutions'
                  else pareto_loop s truck orders maxSolutions ws solutions' (seen(key := True)))"

text \<open>\<open>dominates sol2 sol1\<close> is the test of the inner loop of \<open>filterParetoOptimal\<close>.\<close>

definition dominates :: "ParetoSolution \<Rightarrow> ParetoSolution \<Rightarrow> bool" where
  "dominates sol2 sol1 =
     (TotalPayoutCents sol2 \<ge> TotalPayoutCents sol1
      \<and> UtilizationWeightPercent sol2 \<ge> UtilizationWeightPercent sol1
      \<and> UtilizationVolumePercent sol2 \<ge> UtilizationVolumePercent sol1
      \<and> (TotalPayoutCents sol2 > TotalPayoutCents sol1
         \<or> UtilizationWeightPercent sol2 > UtilizationWeightPercent sol1
         \<or> UtilizationVolumePercent sol2 > UtilizationVolumePercent sol1))"

definition filterParetoOptimal :: "ParetoSolution list \<Rightarrow> ParetoSolution list" where
  "filterParetoOptimal solutions =
     map (\<lambda>i. solutions ! i)
       (filter (\<lambda>i. \<not> list_ex (\<lambda>j. i \<noteq> j \<and> dominates (solutions ! j) (solutions ! i))
                          [0 ..< length solutions])
          [0 ..< length solutions])"

definition GetParetoOptimalSolutions ::
  "OptimizerService \<Rightarrow> Truck \<Rightarrow> Order list \<Rightarrow> int \<Rightarrow> panic + ParetoSolution list" where
  "GetParetoOptimalSolutions s truck orders maxSolutions =
     (case pareto_loop s truck orders maxSolutions paretoWeights [] (\<lambda>key. False) of
        Inl e \<Rightarrow> Inl e
      | Inr solutions \<Rightarrow> Inr (filterParetoOptimal solutions))"

section \<open>Reachable subset masks\<close>

text \<open>
  The totals of the subset that a mask denotes, and the masks that can be built from the
  empty one by inserting one order at a time, each insertion being compatible with every
  order already in the mask and within the capacity of the truck.
\<close>

definition maskPayout :: "Order list \<Rightarrow> nat \<Rightarrow> int" where
  "maskPayout orders m = sum_list (map Payout (extractOrders m orders))"

definition maskWeight :: "Order list \<Rightarrow> nat \<Rightarrow> int" where
  "maskWeight orders m = sum_list (map WeightLbs (extractOrders m orders))"

definition maskVolume :: "Order list \<Rightarrow> nat \<Rightarrow> int" where
  "maskVolume orders m = sum_list (map VolumeCuft (extractOrders m orders))"

definition insertable :: "Truck \<Rightarrow> Order list \<Rightarrow> nat \<Rightarrow> nat \<Rightarrow> bool" where
  "insertable truck orders m i \<longleftrightarrow>
     i < length orders \<and> \<not> bit m i
     \<and> (\<forall>j < length orders. bit m j \<longrightarrow> CanCombine (orders ! i) (orders ! j))
     \<and> maskWeight orders m + WeightLbs (orders ! i) \<le> MaxWeightLbs truck
     \<and> maskVolume orders m + VolumeCuft (orders ! i) \<le> MaxVolumeCuft truck"

inductive reachable :: "Truck \<Rightarrow> Order list \<Rightarrow> nat \<Rightarrow> bool" for truck orders where
  reachable_empty: "reachable truck orders 0"
| reachable_insert:
    "reachable truck orders m \<Longrightarrow> insertable truck orders m i
     \<Longrightarrow> reachable truck orders (set_bit i m)"

text \<open>Invariants of the sweep over the table.\<close>

definition table_sound :: "Truck \<Rightarrow> Order list \<Rightarrow> dp_table \<Rightarrow> bool" where
  "table_sound truck orders tbl \<longleftrightarrow>
     length (dpPayout tbl) = 2 ^ length orders \<and> length (dpWeight tbl) = 2 ^ length orders
     \<and> length (dpVolume tbl) = 2 ^ length orders \<and> length (dpValid tbl) = 2 ^ length orders
     \<and> (\<forall>m < 2 ^ length orders. dpValid tbl ! m \<longrightarrow>
           reachable truck orders m
           \<and> dpPayout tbl ! m = maskPayout orders m
           \<and> dpWeight tbl ! m = maskWeight orders m
           \<and> dpVolume tbl ! m = maskVolume orders m)"

definition table_covers :: "Truck \<Rightarrow> Order list \<Rightarrow> nat \<Rightarrow> nat \<Rightarrow> dp_table \<Rightarrow> bool" where
  "table_covers truck orders k j tbl \<longleftrightarrow>
     dpValid tbl ! 0
     \<and> (\<forall>m i. reachable truck orders m \<and> insertable truck orders m i
               \<and> (m < k \<or> (m = k \<and> i < j))
            \<longrightarrow> dpValid tbl ! set_bit i m)"

section \<open>Properties of a result\<close>

text \<open>
  A result is consistent with the input when its totals are the sums over its selected
  orders and every selected order is an input order (none more often than it occurs in
  the input). It is feasible when the selection respects both capacities and passes
  \<open>ValidateOrderSet\<close>.
\<close>

definition result_consistent :: "Order list \<Rightarrow> OptimizationResult \<Rightarrow> bool" where
  "result_consistent orders r \<longleftrightarrow>
     TotalPayout r = sum_list (map Payout (SelectedOrders r))
     \<and> TotalWeight r = sum_list (map WeightLbs (SelectedOrders r))
     \<and> TotalVolume r = sum_list (map VolumeCuft (SelectedOrders r))
     \<and> set (SelectedOrders r) \<subseteq> set orders
     \<and> mset (SelectedOrders r) \<subseteq># mset orders"

definition result_feasible :: "Truck \<Rightarrow> OptimizationResult \<Rightarrow> bool" where
  "result_feasible truck r \<longleftrightarrow>
     sum_list (map WeightLbs (SelectedOrders r)) \<le> MaxWeightLbs truck
     \<and> sum_list (map VolumeCuft (SelectedOrders r)) \<le> MaxVolumeCuft truck
     \<and> TotalWeight r \<le> MaxWeightLbs truck
     \<and> TotalVolume r \<le> MaxVolumeCuft truck
     \<and> ValidateOrderSet (SelectedOrders r)"

text \<open>
  A feasible selection from a list of orders: orders of the list (none more often than
  it occurs there), pairwise compatible and within both capacities.
\<close>

definition feasible_selection :: "Truck \<Rightarrow> Order list \<Rightarrow> Order list \<Rightarrow> bool" where
  "feasible_selection truck orders s \<longleftrightarrow>
     mset s \<subseteq># mset orders
     \<and> ValidateOrderSet s
     \<and> sum_list (map WeightLbs s) \<le> MaxWeightLbs truck
     \<and> sum_list (map VolumeCuft s) \<le> MaxVolumeCuft truck"

section \<open>The Pareto loop as a list computation\<close>







section \<open>Example inputs\<close>


definition mkOrder :: "string \<Rightarrow> int \<Rightarrow> int \<Rightarrow> int \<Rightarrow> string \<Rightarrow> bool \<Rightarrow> Order" where
  "mkOrder i p w v dst h =
     \<lparr>ID = i, Payout = p, WeightLbs = w, VolumeCuft = v, Origin = ''A'', Destination = dst,
      PickupDate = 0, DeliveryDate = 0, IsHazmat = h\<rparr>"

definition truck100 :: Truck where
  "truck100 = \<lparr>TruckID = ''t'', MaxWeightLbs = 100, MaxVolumeCuft = 100\<rparr>"

text \<open>
  Twenty-three orders on which the greedy choice is not optimal: the densest order
  \<open>a\<close> blocks \<open>b\<close> and \<open>c\<close>, which together pay more.
\<close>

definition orders23 :: "Order list" where
  "orders23 = [mkOrder ''a'' 60 51 10 ''B'' False, mkOrder ''b'' 50 50 10 ''B'' False,
               mkOrder ''c'' 50 50 10 ''B'' False] @ replicate 20 (mkOrder ''f'' 1 100 100 ''C'' False)"

text \<open>Two orders that exclude each other by weight, one paying more, one filling the truck.\<close>

definition ordersAB :: "Order list" where
  "ordersAB = [mkOrder ''a'' 20003 10 10 ''B'' False, mkOrder ''b'' 1003 100 100 ''B'' False]"

definition solA :: ParetoSolution where
  "solA = \<lparr>OrderIDs = [''a''], TotalPayoutCents = 20003, TotalWeightLbs = 10, TotalVolumeCuft = 10,
           UtilizationWeightPercent = 10, UtilizationVolumePercent = 10, Score = 20003\<rparr>"

definition solB :: ParetoSolution where
  "solB = \<lparr>OrderIDs = [''b''], TotalPayoutCents = 8200, TotalWeightLbs = 100, TotalVolumeCuft = 100,
           UtilizationWeightPercent = 100, UtilizationVolumePercent = 100, Score = 161640\<rparr>"

text \<open>Three orders on which the greedy choice is not optimal.\<close>

definition ordersABC :: "Order list" where
  "ordersABC = [mkOrder ''a'' 60 51 10 ''B'' False, mkOrder ''b'' 50 50 10 ''B'' False,
                mkOrder ''c'' 50 50 10 ''B'' False]"

definition resultABC :: OptimizationResult where
  "resultABC = \<lparr>SelectedOrders = [mkOrder ''b'' 50 50 10 ''B'' False, mkOrder ''c'' 50 50 10 ''B'' False],
                 TotalPayout = 100, TotalWeight = 100, TotalVolume = 20\<rparr>"

text \<open>Scenario B and scenario C of the specification.\<close>

definition scenarioB :: "Order list" where
  "scenarioB = [mkOrder ''heavy'' 100000 50000 1000 ''B'' False]"

definition orderH :: Order where
  "orderH = mkOrder ''H'' 100000 10000 500 ''B'' True"

definition orderN :: Order where
  "orderN = mkOrder ''N'' 150000 10000 500 ''B'' False"

definition resultN :: OptimizationResult where
  "resultN = \<lparr>SelectedOrders = [orderN], TotalPayout = 150000, TotalWeight = 10000,
               TotalVolume = 500\<rparr>"

text \<open>Scenario A of the specification, and two incompatible orders of equal payout.\<close>

definition truck44 :: Truck where
  "truck44 = \<lparr>TruckID = ''t'', MaxWeightLbs = 44000, MaxVolumeCuft = 3000\<rparr>"

definition scenarioA :: "Order list" where
  "scenarioA = [mkOrder ''O1'' 250000 18000 1200 ''B'' False, mkOrder ''O2'' 180000 12000 900 ''B'' False]"

definition ordersTie :: "Order list" where
  "ordersTie = [mkOrder ''x'' 100 10 10 ''B'' False, mkOrder ''y'' 100 10 10 ''C'' False]"

definition resultTie :: OptimizationResult where
  "resultTie = \<lparr>SelectedOrders = [mkOrder ''x'' 100 10 10 ''B'' False],
                 TotalPayout = 100, TotalWeight = 10, TotalVolume = 10\<rparr>"

definition resultA :: OptimizationResult where
  "resultA = \<lparr>SelectedOrders = scenarioA, TotalPayout = 430000, TotalWeight = 30000,
               TotalVolume = 2100\<rparr>"

text \<open>
  Two orders that exclude each other by weight; the one that pays less fills the truck,
  and its scalarized payout exceeds the payout of the other.
\<close>

definition ordersXY :: "Order list" where
  "ordersXY = [mkOrder ''x'' 103 10 10 ''B'' False, mkOrder ''y'' 92 100 100 ''B'' False]"

text \<open>
  One order that fills the truck, with the weights of the \<open>balanced\<close> objective.
\<close>

definition orderFull :: Order where
  "orderFull = mkOrder ''full'' 1000 100 100 ''B'' False"

definition balancedConfig :: OptimizationConfig where
  "balancedConfig = \<lparr>Objective = ''balanced'', RevenueWeight = 1 / 2, UtilizationWeight = 1 / 2,
                       Algorithm = ''auto''\<rparr>"


definition solY :: ParetoSolution where
  "solY = \<lparr>OrderIDs = [''y''], TotalPayoutCents = 2073, TotalWeightLbs = 100, TotalVolumeCuft = 100,
           UtilizationWeightPercent = 100, UtilizationVolumePercent = 100, Score = 208292 / 5\<rparr>"

definition respFull :: OptimizeResponse where
  "respFull = \<lparr>RespTruckID = ''t'', SelectedOrderIDs = [''full''], RespTotalPayoutCents = 5500,
               RespTotalWeightLbs = 100, RespTotalVolumeCuft = 100,
               RespUtilizationWeightPercent = 100, RespUtilizationVolumePercent = 100\<rparr>"

section \<open>Properties of the constraint checker\<close>





section \<open>The dispatcher\<close>

text \<open>
  Claim C8. \<open>HybridOptimizer.Optimize\<close> is \<open>DPOptimizer.Optimize\<close> when there are at
  most 22 orders and \<open>GreedyOptimizer.Optimize\<close> otherwise; 23 orders go to the greedy
  optimizer.
\<close>

theorem hybrid_dispatch:
  "(length orders \<le> 22 \<longrightarrow> HybridOptimizer_Optimize truck orders = DPOptimizer_Optimize truck orders)
   \<and> (length orders > 22 \<longrightarrow>
        HybridOptimizer_Optimize truck orders = Inr (GreedyOptimizer_Optimize truck orders))
   \<and> (length orders = 23 \<longrightarrow>
        HybridOptimizer_Optimize truck orders = Inr (GreedyOptimizer_Optimize truck orders))"
  by (simp add: HybridOptimizer_Optimize_def maxDPSize_def)

text \<open>
  On \<open>orders23\<close> the dispatcher returns the greedy result, which pays 60, although the
  exact backtracking search finds 100; on the first 22 of them it runs the exact solver.
\<close>

theorem hybrid_dispatch_witness:
  "HybridOptimizer_Optimize truck100 orders23 = Inr (GreedyOptimizer_Optimize truck100 orders23)
   \<and> TotalPayout (GreedyOptimizer_Optimize truck100 orders23) = 60
   \<and> TotalPayout (BacktrackingOptimizer_Optimize truck100 orders23) = 100
   \<and> HybridOptimizer_Optimize truck100 (take 22 orders23)
       = DPOptimizer_Optimize truck100 (take 22 orders23)"
proof -
  have l23: "length orders23 = 23" by (simp add: orders23_def)
  have l22: "length (take 22 orders23) \<le> 22" by simp
  have g: "TotalPayout (GreedyOptimizer_Optimize truck100 orders23) = 60" by code_simp
  have b: "TotalPayout (BacktrackingOptimizer_Optimize truck100 orders23) = 100" by code_simp
  show ?thesis
    using hybrid_dispatch [of orders23 truck100] hybrid_dispatch [of "take 22 orders23" truck100]
      l23 l22 g b by simp
qed

section \<open>The Pareto filter\<close>

lemma filterParetoOptimal_nondominated:
  assumes i: "i < length (filterParetoOptimal sols)" and j: "j < length (filterParetoOptimal sols)"
    and ij: "i \<noteq> j"
  shows "\<not> dominates (filterParetoOptimal sols ! i) (filterParetoOptimal sols ! j)"
proof -
  define keep where
    "keep = (\<lambda>i. \<not> list_ex (\<lambda>j. i \<noteq> j \<and> dominates (sols ! j) (sols ! i)) [0 ..< length sols])"
  define idx where "idx = filter keep [0 ..< length sols]"
  have res: "filterParetoOptimal sols = map (\<lambda>i. sols ! i) idx"
    by (simp add: filterParetoOptimal_def idx_def keep_def)
  have len: "i < length idx" "j < length idx" using i j by (simp_all add: res)
  have dist: "distinct idx" by (simp add: idx_def)
  have ne: "idx ! i \<noteq> idx ! j" using dist len ij by (simp add: nth_eq_iff_index_eq)
  have "idx ! j \<in> set idx" "idx ! i \<in> set idx" using len by simp_all
  then have kj: "keep (idx ! j)" and bi: "idx ! i < length sols"
    by (simp_all add: idx_def)
  from kj have "\<forall>k\<in>{0 ..< length sols}. idx ! j = k \<or> \<not> dominates (sols ! k) (sols ! (idx ! j))"
    by (simp add: keep_def list_ex_iff)
  moreover have "idx ! i \<in> {0 ..< length sols}" using bi by simp
  ultimately have "\<not> dominates (sols ! (idx ! i)) (sols ! (idx ! j))"
    using ne by (auto dest!: bspec [where x = "idx ! i"])
  then show ?thesis using len by (simp add: res)
qed

text \<open>
  Claim C7. In a list returned by \<open>GetParetoOptimalSolutions\<close> no solution dominates
  another one: none is at least as large as another on total payout, weight utilization
  and volume utilization and strictly larger on one of the three.
\<close>

theorem pareto_no_mutual_dominance:
  assumes "GetParetoOptimalSolutions s truck orders maxSolutions = Inr sols"
    and "i < length sols" and "j < length sols" and "i \<noteq> j"
  shows "\<not> (TotalPayoutCents (sols ! i) \<ge> TotalPayoutCents (sols ! j)
            \<and> UtilizationWeightPercent (sols ! i) \<ge> UtilizationWeightPercent (sols ! j)
            \<and> UtilizationVolumePercent (sols ! i) \<ge> UtilizationVolumePercent (sols ! j)
            \<and> (TotalPayoutCents (sols ! i) > TotalPayoutCents (sols ! j)
               \<or> UtilizationWeightPercent (sols ! i) > UtilizationWeightPercent (sols ! j)
               \<or> UtilizationVolumePercent (sols ! i) > UtilizationVolumePercent (sols ! j)))"
proof -
  from assms(1) obtain cands where "sols = filterParetoOptimal cands"
    by (auto simp: GetParetoOptimalSolutions_def split: sum.splits)
  with assms(2-4) have "\<not> dominates (sols ! i) (sols ! j)"
    using filterParetoOptimal_nondominated by blast
  then show ?thesis unfolding dominates_def .
qed

theorem pareto_no_mutual_dominance_witness:
  "GetParetoOptimalSolutions NewOptimizerService truck100 ordersAB 5 = Inr [solA, solB]
   \<and> \<not> (TotalPayoutCents solA \<ge> TotalPayoutCents solB
         \<and> UtilizationWeightPercent solA \<ge> UtilizationWeightPercent solB
         \<and> UtilizationVolumePercent solA \<ge> UtilizationVolumePercent solB
         \<and> (TotalPayoutCents solA > TotalPayoutCents solB
            \<or> UtilizationWeightPercent solA > UtilizationWeightPercent solB
            \<or> UtilizationVolumePercent solA > UtilizationVolumePercent solB))"
proof -
  have ev: "GetParetoOptimalSolutions NewOptimizerService truck100 ordersAB 5 = Inr [solA, solB]"
    by code_simp
  show ?thesis
    using ev pareto_no_mutual_dominance [OF ev, of 0 1] by simp
qed

section \<open>Subset masks\<close>

lemma and_push_bit_1_nat: "(m :: nat) AND push_bit i 1 \<noteq> 0 \<longleftrightarrow> bit m i"
  by (metis and.commute and_exp_eq_0_iff_not_bit push_bit_of_1)

lemma or_push_bit_1_nat: "(m :: nat) OR push_bit i 1 = set_bit i m"
  by (simp add: set_bit_eq_or)

lemma bit_set_bit_nat: "bit (set_bit i (m :: nat)) j \<longleftrightarrow> j = i \<or> bit m j"
  by (auto simp: bit_set_bit_iff)

lemma set_bit_less: "(m :: nat) < 2 ^ n \<Longrightarrow> i < n \<Longrightarrow> set_bit i m < 2 ^ n"
proof -
  assume a: "m < 2 ^ n" "i < n"
  then have "take_bit n m = m" by (simp add: take_bit_nat_eq_self_iff)
  then have "take_bit n (set_bit i m) = set_bit i m"
    using a(2) by (simp add: take_bit_set_bit_eq)
  then show ?thesis by (simp add: take_bit_nat_eq_self_iff)
qed

lemma less_set_bit: "\<not> bit (m :: nat) i \<Longrightarrow> m < set_bit i m"
  by (metis bit_set_bit_nat nless_le of_nat_le_iff of_nat_set_bit_eq
    set_bit_greater_eq)

lemma unset_bit_less: "bit (m :: nat) i \<Longrightarrow> unset_bit i m < m"
  by (metis bit_unset_bit_iff nless_le of_nat_le_iff of_nat_unset_bit_eq
    unset_bit_less_eq)

lemma lt_pow_bit:
  assumes "(m :: nat) < 2 ^ n" "bit m j" shows "j < n"
  using assms by (metis bit_take_bit_iff take_bit_nat_eq_self)

lemma set_unset_bit_nat: "bit (m :: nat) i \<Longrightarrow> set_bit i (unset_bit i m) = m"
  by (rule bit_eqI) (auto simp: bit_set_bit_iff bit_unset_bit_iff)

lemma and_eq_0_nat: "(a :: nat) AND b = 0 \<longleftrightarrow> (\<forall>j. \<not> (bit a j \<and> bit b j))"
  by (auto simp: bit_eq_iff bit_and_iff)

lemma extractOrders_bit: "extractOrders m os = map (\<lambda>i. os ! i) (filter (bit m) [0 ..< length os])"
  unfolding extractOrders_def and_push_bit_1_nat ..

lemma sum_extract:
  "sum_list (map f (extractOrders m os)) = (\<Sum>i \<in> {i. i < length os \<and> bit m i}. f (os ! i))"
proof -
  have "sum_list (map f (extractOrders m os))
        = sum_list (map (\<lambda>i. f (os ! i)) (filter (bit m) [0 ..< length os]))"
    by (simp add: extractOrders_bit comp_def)
  also have "\<dots> = sum (\<lambda>i. f (os ! i)) (set (filter (bit m) [0 ..< length os]))"
    by (rule sum_list_distinct_conv_sum_set) simp
  also have "set (filter (bit m) [0 ..< length os]) = {i. i < length os \<and> bit m i}"
    by auto
  finally show ?thesis .
qed

lemma sum_extract_set_bit:
  assumes "i < length os" "\<not> bit m i"
  shows "sum_list (map f (extractOrders (set_bit i m) os))
         = sum_list (map f (extractOrders m os)) + (f (os ! i) :: int)"
proof -
  have "{j. j < length os \<and> bit (set_bit i m) j} = insert i {j. j < length os \<and> bit m j}"
    using assms(1) by (auto simp: bit_set_bit_nat)
  moreover have "i \<notin> {j. j < length os \<and> bit m j}" using assms(2) by simp
  moreover have "finite {j. j < length os \<and> bit m j}" by simp
  ultimately show ?thesis by (simp add: sum_extract)
qed

lemma set_extractOrders: "set (extractOrders m os) = {os ! i | i. i < length os \<and> bit m i}"
  by (auto simp: extractOrders_bit)

lemma extractOrders_0: "extractOrders 0 os = []"
  by (simp add: extractOrders_bit)

lemma fold_or_bits:
  "bit (fold (\<lambda>j (m::nat). if Q j then m OR push_bit j 1 else m) [0 ..< k] m0) b
     \<longleftrightarrow> bit m0 b \<or> (b < k \<and> Q b)"
  by (induction k) (auto simp: bit_or_iff bit_exp_iff less_Suc_eq)

lemma bit_incompatibleMask:
  "i < length os \<Longrightarrow>
   bit (incompatibleMask os ! i) j \<longleftrightarrow> j < length os \<and> i \<noteq> j \<and> \<not> CanCombine (os ! i) (os ! j)"
  by (simp add: incompatibleMask_def fold_or_bits)

lemma incompatible_check:
  assumes "i < length os" "m < 2 ^ length os"
  shows "m AND incompatibleMask os ! i \<noteq> 0
         \<longleftrightarrow> (\<exists>j < length os. bit m j \<and> i \<noteq> j \<and> \<not> CanCombine (os ! i) (os ! j))"
  using assms by (auto simp: and_eq_0_nat bit_incompatibleMask)

section \<open>The sweep of the DP table\<close>

lemma dp_try_alt:
  "dp_try truck os inc k cw cv i tbl =
     (if bit k i then tbl
      else if k AND inc ! i \<noteq> 0 then tbl
      else if cw + WeightLbs (os ! i) > MaxWeightLbs truck
              \<or> cv + VolumeCuft (os ! i) > MaxVolumeCuft truck then tbl
      else if \<not> dpValid tbl ! set_bit i k
              \<or> dpPayout tbl ! k + Payout (os ! i) > dpPayout tbl ! set_bit i k
      then \<lparr>dpPayout = (dpPayout tbl)[set_bit i k := dpPayout tbl ! k + Payout (os ! i)],
            dpWeight = (dpWeight tbl)[set_bit i k := cw + WeightLbs (os ! i)],
            dpVolume = (dpVolume tbl)[set_bit i k := cv + VolumeCuft (os ! i)],
            dpValid = (dpValid tbl)[set_bit i k := True]\<rparr>
      else tbl)"
  by (simp only: dp_try_def and_push_bit_1_nat or_push_bit_1_nat Let_def)

lemma reachable_less: "reachable truck os m \<Longrightarrow> m < 2 ^ length os"
  by (induction rule: reachable.induct) (auto simp: insertable_def set_bit_less)

lemma reachable_pred:
  assumes "reachable truck os m"
  shows "m = 0 \<or> (\<exists>m' i. reachable truck os m' \<and> insertable truck os m' i \<and> m = set_bit i m' \<and> m' < m)"
  using assms
proof (cases rule: reachable.cases)
  case reachable_empty
  then show ?thesis by simp
next
  case (reachable_insert m' i)
  then have "m' < m" by (simp add: insertable_def less_set_bit)
  with reachable_insert show ?thesis by blast
qed

lemma maskPayout_set_bit:
  "i < length os \<Longrightarrow> \<not> bit m i \<Longrightarrow> maskPayout os (set_bit i m) = maskPayout os m + Payout (os ! i)"
  by (simp add: maskPayout_def sum_extract_set_bit)

lemma maskWeight_set_bit:
  "i < length os \<Longrightarrow> \<not> bit m i \<Longrightarrow> maskWeight os (set_bit i m) = maskWeight os m + WeightLbs (os ! i)"
  by (simp add: maskWeight_def sum_extract_set_bit)

lemma maskVolume_set_bit:
  "i < length os \<Longrightarrow> \<not> bit m i \<Longrightarrow> maskVolume os (set_bit i m) = maskVolume os m + VolumeCuft (os ! i)"
  by (simp add: maskVolume_def sum_extract_set_bit)

lemma insertable_iff_checks:
  assumes "k < 2 ^ length os" "i < length os"
  shows "insertable truck os k i \<longleftrightarrow>
           \<not> bit k i \<and> \<not> (k AND incompatibleMask os ! i \<noteq> 0)
           \<and> \<not> (maskWeight os k + WeightLbs (os ! i) > MaxWeightLbs truck
                 \<or> maskVolume os k + VolumeCuft (os ! i) > MaxVolumeCuft truck)"
proof -
  have "CanCombine (os ! i) (os ! i)" by (simp add: CanCombine_def timeWindowsCompatible_def)
  then show ?thesis
    unfolding insertable_def incompatible_check [OF assms(2,1)] using assms(2)
    by (auto simp: not_less)
qed

lemma dp_try_inv:
  assumes snd: "table_sound truck os tbl" and cov: "table_covers truck os k i tbl"
    and k: "k < 2 ^ length os" and i: "i < length os" and vk: "dpValid tbl ! k"
  defines "tbl' \<equiv> dp_try truck os (incompatibleMask os) k (maskWeight os k) (maskVolume os k) i tbl"
  shows "table_sound truck os tbl' \<and> table_covers truck os k (Suc i) tbl' \<and> dpValid tbl' ! k"
proof -
  from snd vk k have rk: "reachable truck os k" and pk: "dpPayout tbl ! k = maskPayout os k"
    by (auto simp: table_sound_def)
  show ?thesis
  proof (cases "insertable truck os k i")
    case False
    then have same: "tbl' = tbl"
      using insertable_iff_checks [OF k i, of truck]
      by (auto simp: tbl'_def dp_try_alt)
    have "table_covers truck os k (Suc i) tbl"
      using cov False unfolding table_covers_def by (auto simp: less_Suc_eq)
    with snd vk same show ?thesis by simp
  next
    case True
    define nm where "nm = set_bit i k"
    have nb: "\<not> bit k i" using True by (simp add: insertable_def)
    have nm_lt: "nm < 2 ^ length os" using k i by (simp add: nm_def set_bit_less)
    have rnm: "reachable truck os nm" unfolding nm_def using rk True by (rule reachable_insert)
    have vals: "maskPayout os nm = maskPayout os k + Payout (os ! i)"
      "maskWeight os nm = maskWeight os k + WeightLbs (os ! i)"
      "maskVolume os nm = maskVolume os k + VolumeCuft (os ! i)"
      using i nb by (simp_all add: nm_def maskPayout_set_bit maskWeight_set_bit maskVolume_set_bit)
    have ne: "nm \<noteq> k" using less_set_bit [OF nb] by (simp add: nm_def)
    show ?thesis
    proof (cases "\<not> dpValid tbl ! nm \<or> dpPayout tbl ! k + Payout (os ! i) > dpPayout tbl ! nm")
      case upd: True
      have eq: "tbl' = \<lparr>dpPayout = (dpPayout tbl)[nm := maskPayout os nm],
                        dpWeight = (dpWeight tbl)[nm := maskWeight os nm],
                        dpVolume = (dpVolume tbl)[nm := maskVolume os nm],
                        dpValid = (dpValid tbl)[nm := True]\<rparr>"
        using True upd insertable_iff_checks [OF k i, of truck]
        by (simp add: tbl'_def dp_try_alt nm_def [symmetric] vals pk)
      have s': "table_sound truck os tbl'"
        using snd rnm nm_lt unfolding table_sound_def eq
        by (auto simp: nth_list_update)
      have mono: "\<And>m. m < 2 ^ length os \<Longrightarrow> dpValid tbl ! m \<Longrightarrow> dpValid tbl' ! m"
        using snd nm_lt unfolding eq table_sound_def by (auto simp: nth_list_update)
      have vnm: "dpValid tbl' ! nm" using snd nm_lt unfolding eq table_sound_def by simp
      have c': "table_covers truck os k (Suc i) tbl'"
        unfolding table_covers_def
      proof (intro conjI allI impI)
        show "dpValid tbl' ! 0" using cov mono [of 0] by (simp add: table_covers_def)
      next
        fix m j
        assume a: "reachable truck os m \<and> insertable truck os m j \<and> (m < k \<or> m = k \<and> j < Suc i)"
        then have lt: "set_bit j m < 2 ^ length os"
          using reachable_less [of truck os m] by (simp add: insertable_def set_bit_less)
        show "dpValid tbl' ! set_bit j m"
        proof (cases "m = k \<and> j = i")
          case True then show ?thesis using vnm by (simp add: nm_def)
        next
          case False
          with a have "m < k \<or> m = k \<and> j < i" by auto
          with a cov have "dpValid tbl ! set_bit j m" unfolding table_covers_def by blast
          then show ?thesis using mono lt by blast
        qed
      qed
      from s' c' mono [OF k vk] show ?thesis by simp
    next
      case noupd: False
      then have vnm: "dpValid tbl ! nm" by blast
      have same: "tbl' = tbl"
        using True noupd insertable_iff_checks [OF k i, of truck]
        by (simp add: tbl'_def dp_try_alt nm_def [symmetric])
      have "table_covers truck os k (Suc i) tbl"
        unfolding table_covers_def
      proof (intro conjI allI impI)
        show "dpValid tbl ! 0" using cov by (simp add: table_covers_def)
      next
        fix m j
        assume a: "reachable truck os m \<and> insertable truck os m j \<and> (m < k \<or> m = k \<and> j < Suc i)"
        show "dpValid tbl ! set_bit j m"
        proof (cases "m = k \<and> j = i")
          case True then show ?thesis using vnm by (simp add: nm_def)
        next
          case False
          with a have "m < k \<or> m = k \<and> j < i" by auto
          with a cov show ?thesis unfolding table_covers_def by blast
        qed
      qed
      with snd vk same show ?thesis by simp
    qed
  qed
qed

lemma dp_try_fold_inv:
  assumes snd: "table_sound truck os tbl" and cov: "table_covers truck os k 0 tbl"
    and k: "k < 2 ^ length os" and vk: "dpValid tbl ! k" and j: "j \<le> length os"
  defines "run \<equiv> \<lambda>j. fold (dp_try truck os (incompatibleMask os) k (maskWeight os k) (maskVolume os k))
                          [0 ..< j] tbl"
  shows "table_sound truck os (run j) \<and> table_covers truck os k j (run j) \<and> dpValid (run j) ! k"
  using j
proof (induction j)
  case 0
  then show ?case using snd cov vk by (simp add: run_def)
next
  case (Suc j)
  then have ih: "table_sound truck os (run j)" "table_covers truck os k j (run j)" "dpValid (run j) ! k"
    and jl: "j < length os" by simp_all
  have "run (Suc j) = dp_try truck os (incompatibleMask os) k (maskWeight os k) (maskVolume os k) j (run j)"
    by (simp add: run_def)
  then show ?case using dp_try_inv [OF ih(1) ih(2) k jl ih(3)] by simp
qed

lemma dp_visit_inv:
  assumes snd: "table_sound truck os tbl" and cov: "table_covers truck os k 0 tbl"
    and k: "k < 2 ^ length os"
  defines "tbl' \<equiv> dp_visit truck os (incompatibleMask os) k tbl"
  shows "table_sound truck os tbl' \<and> table_covers truck os (Suc k) 0 tbl'"
proof (cases "dpValid tbl ! k")
  case False
  then have same: "tbl' = tbl" by (simp add: tbl'_def dp_visit_def)
  have nr: "\<not> reachable truck os k"
  proof
    assume "reachable truck os k"
    from reachable_pred [OF this] have "dpValid tbl ! k"
      using cov unfolding table_covers_def by auto
    with False show False by simp
  qed
  have "table_covers truck os (Suc k) 0 tbl"
    using cov nr unfolding table_covers_def by (auto simp: less_Suc_eq)
  with snd same show ?thesis by simp
next
  case True
  with snd k have w: "dpWeight tbl ! k = maskWeight os k" and v: "dpVolume tbl ! k = maskVolume os k"
    by (auto simp: table_sound_def)
  have eq: "tbl' = fold (dp_try truck os (incompatibleMask os) k (maskWeight os k) (maskVolume os k))
                     [0 ..< length os] tbl"
    using True by (simp add: tbl'_def dp_visit_def w v)
  from dp_try_fold_inv [OF snd cov k True le_refl]
  have s': "table_sound truck os tbl'" and c': "table_covers truck os k (length os) tbl'"
    by (simp_all add: eq)
  have "table_covers truck os (Suc k) 0 tbl'"
    using c' unfolding table_covers_def by (auto simp: less_Suc_eq insertable_def)
  with s' show ?thesis by simp
qed

lemma maskTotals_0: "maskPayout os 0 = 0" "maskWeight os 0 = 0" "maskVolume os 0 = 0"
  by (simp_all add: maskPayout_def maskWeight_def maskVolume_def extractOrders_0)

lemma dp_init_inv:
  "table_sound truck os (dp_init (2 ^ length os)) \<and> table_covers truck os 0 0 (dp_init (2 ^ length os))"
proof -
  have pos: "(0::nat) < 2 ^ length os" by simp
  have v: "\<And>m. m < 2 ^ length os \<Longrightarrow> dpValid (dp_init (2 ^ length os)) ! m \<longleftrightarrow> m = 0"
    by (auto simp: dp_init_def nth_list_update)
  have "table_sound truck os (dp_init (2 ^ length os))"
    unfolding table_sound_def
  proof (intro conjI allI impI)
    fix m assume "m < 2 ^ length os" "dpValid (dp_init (2 ^ length os)) ! m"
    then have m0: "m = 0" using v by blast
    show "reachable truck os m" using m0 by (simp add: reachable_empty)
    show "dpPayout (dp_init (2 ^ length os)) ! m = maskPayout os m"
      using m0 by (simp add: dp_init_def maskTotals_0)
    show "dpWeight (dp_init (2 ^ length os)) ! m = maskWeight os m"
      using m0 by (simp add: dp_init_def maskTotals_0)
    show "dpVolume (dp_init (2 ^ length os)) ! m = maskVolume os m"
      using m0 by (simp add: dp_init_def maskTotals_0)
  qed (simp_all add: dp_init_def)
  moreover have "table_covers truck os 0 0 (dp_init (2 ^ length os))"
    using v [OF pos] by (simp add: table_covers_def)
  ultimately show ?thesis by simp
qed

lemma dp_sweep_prefix_inv:
  fixes truck :: Truck
  assumes "k \<le> 2 ^ length os"
  defines "run \<equiv> \<lambda>k. fold (dp_visit truck os (incompatibleMask os)) [0 ..< k] (dp_init (2 ^ length os))"
  shows "table_sound truck os (run k) \<and> table_covers truck os k 0 (run k)"
  using assms(1)
proof (induction k)
  case 0
  then show ?case using dp_init_inv by (simp add: run_def)
next
  case (Suc k)
  then have ih: "table_sound truck os (run k)" "table_covers truck os k 0 (run k)"
    and kl: "k < 2 ^ length os" by simp_all
  have "run (Suc k) = dp_visit truck os (incompatibleMask os) k (run k)"
    by (simp add: run_def)
  then show ?case using dp_visit_inv [OF ih kl] by simp
qed

lemma dp_sweep_sound: "table_sound truck os (dp_sweep truck os)"
  using dp_sweep_prefix_inv [of "2 ^ length os" os truck]
  by (simp add: dp_sweep_def Let_def)

lemma dp_sweep_valid_iff:
  assumes "m < 2 ^ length os"
  shows "dpValid (dp_sweep truck os) ! m \<longleftrightarrow> reachable truck os m"
proof
  assume "dpValid (dp_sweep truck os) ! m"
  with dp_sweep_sound assms show "reachable truck os m" by (auto simp: table_sound_def)
next
  assume r: "reachable truck os m"
  have cov: "table_covers truck os (2 ^ length os) 0 (dp_sweep truck os)"
    using dp_sweep_prefix_inv [of "2 ^ length os" os truck] by (simp add: dp_sweep_def Let_def)
  from reachable_pred [OF r] show "dpValid (dp_sweep truck os) ! m"
    using cov assms unfolding table_covers_def by auto
qed

lemma dp_sweep_values:
  assumes "reachable truck os m"
  shows "dpPayout (dp_sweep truck os) ! m = maskPayout os m"
    and "dpWeight (dp_sweep truck os) ! m = maskWeight os m"
    and "dpVolume (dp_sweep truck os) ! m = maskVolume os m"
  using assms dp_sweep_sound [of truck os] dp_sweep_valid_iff [OF reachable_less [OF assms]] 
    reachable_less [OF assms]
  by (auto simp: table_sound_def)

section \<open>Reachable masks are feasible selections\<close>

lemma CanCombine_refl: "CanCombine a a"
  by (simp add: CanCombine_def timeWindowsCompatible_def)

lemma CanCombine_sym: "CanCombine a b \<Longrightarrow> CanCombine b a"
  by (simp add: CanCombine_def timeWindowsCompatible_def split: if_splits)

lemma ValidateOrderSet_iff:
  "ValidateOrderSet xs \<longleftrightarrow> (\<forall>a \<in> set xs. \<forall>b \<in> set xs. CanCombine a b)"
proof
  assume v: "ValidateOrderSet xs"
  then have lt: "\<And>i j. i < j \<Longrightarrow> j < length xs \<Longrightarrow> CanCombine (xs ! i) (xs ! j)"
    by (auto simp: ValidateOrderSet_def list_all_iff split: if_splits)
  show "\<forall>a \<in> set xs. \<forall>b \<in> set xs. CanCombine a b"
  proof (intro ballI)
    fix a b assume "a \<in> set xs" "b \<in> set xs"
    then obtain i j where ij: "i < length xs" "a = xs ! i" "j < length xs" "b = xs ! j"
      by (auto simp: in_set_conv_nth)
    consider "i < j" | "j < i" | "i = j" by linarith
    then show "CanCombine a b"
    proof cases
      case 1 then show ?thesis using lt ij by simp
    next
      case 2 then show ?thesis using lt [of j i] ij CanCombine_sym by simp
    next
      case 3 then show ?thesis using ij CanCombine_refl by simp
    qed
  qed
next
  assume "\<forall>a \<in> set xs. \<forall>b \<in> set xs. CanCombine a b"
  then show "ValidateOrderSet xs"
    by (auto simp: ValidateOrderSet_def list_all_iff)
qed

lemma reachable_compat:
  "reachable truck os m \<Longrightarrow> i < length os \<Longrightarrow> j < length os \<Longrightarrow> bit m i \<Longrightarrow> bit m j
   \<Longrightarrow> CanCombine (os ! i) (os ! j)"
proof (induction arbitrary: i j rule: reachable.induct)
  case reachable_empty
  then show ?case by simp
next
  case (reachable_insert m k)
  then show ?case
    by (auto simp: bit_set_bit_nat insertable_def CanCombine_refl intro: CanCombine_sym)
qed

lemma reachable_fits:
  assumes "reachable truck os m" "0 \<le> MaxWeightLbs truck" "0 \<le> MaxVolumeCuft truck"
  shows "maskWeight os m \<le> MaxWeightLbs truck \<and> maskVolume os m \<le> MaxVolumeCuft truck"
  using assms(1)
proof (cases rule: reachable.cases)
  case reachable_empty
  then show ?thesis using assms(2,3) by (simp add: maskTotals_0)
next
  case (reachable_insert m' i)
  then show ?thesis
    by (simp add: insertable_def maskWeight_set_bit maskVolume_set_bit)
qed

lemma reachable_ValidateOrderSet:
  assumes "reachable truck os m"
  shows "ValidateOrderSet (extractOrders m os)"
  unfolding ValidateOrderSet_iff set_extractOrders
  using reachable_compat [OF assms] by auto

lemma finite_reachable: "finite {m. reachable truck os m}"
proof -
  have "{m. reachable truck os m} \<subseteq> {..< 2 ^ length os}"
    using reachable_less by auto
  then show ?thesis by (rule finite_subset) simp
qed

lemma dp_best_prefix:
  assumes v0: "dpValid tbl ! 0" and p0: "dpPayout tbl ! 0 = 0" and k: "0 < k"
  defines "scan \<equiv> \<lambda>k. fold (\<lambda>msk (bestPayout, bestMask).
             if dpValid tbl ! msk \<and> dpPayout tbl ! msk > bestPayout
             then (dpPayout tbl ! msk, msk) else (bestPayout, bestMask)) [0 ..< k] (0, 0)"
  shows "snd (scan k) < k \<and> dpValid tbl ! snd (scan k) \<and> dpPayout tbl ! snd (scan k) = fst (scan k)
         \<and> (\<forall>m < k. dpValid tbl ! m \<longrightarrow> dpPayout tbl ! m \<le> fst (scan k))
         \<and> (\<forall>m < snd (scan k). dpValid tbl ! m \<longrightarrow> dpPayout tbl ! m < fst (scan k))"
  using k
proof (induction k)
  case 0
  then show ?case by simp
next
  case (Suc k)
  show ?case
  proof (cases "k = 0")
    case True
    then show ?thesis using v0 p0 by (simp add: scan_def)
  next
    case False
    with Suc have ih: "snd (scan k) < k" "dpValid tbl ! snd (scan k)"
      "dpPayout tbl ! snd (scan k) = fst (scan k)"
      "\<forall>m < k. dpValid tbl ! m \<longrightarrow> dpPayout tbl ! m \<le> fst (scan k)"
      "\<forall>m < snd (scan k). dpValid tbl ! m \<longrightarrow> dpPayout tbl ! m < fst (scan k)"
      by simp_all
    have step: "scan (Suc k) = (if dpValid tbl ! k \<and> dpPayout tbl ! k > fst (scan k)
                                then (dpPayout tbl ! k, k) else scan k)"
      by (simp add: scan_def split_beta)
    show ?thesis
    proof (cases "dpValid tbl ! k \<and> dpPayout tbl ! k > fst (scan k)")
      case True
      have e: "scan (Suc k) = (dpPayout tbl ! k, k)" by (subst step) (use True in auto)
      show ?thesis unfolding e using True ih(4) by (auto simp: less_Suc_eq) 
    next
      case False
      have e: "scan (Suc k) = scan k" by (subst step) (use False in auto)
      show ?thesis unfolding e using False ih by (auto simp: less_Suc_eq)
    qed
  qed
qed

lemma dp_best_props:
  assumes v0: "dpValid tbl ! 0" and p0: "dpPayout tbl ! 0 = 0" and k: "0 < k"
    and b: "dp_best tbl k = (bp, bm)"
  shows "bm < k" "dpValid tbl ! bm" "dpPayout tbl ! bm = bp"
    "\<And>m. m < k \<Longrightarrow> dpValid tbl ! m \<Longrightarrow> dpPayout tbl ! m \<le> bp"
    "\<And>m. m < bm \<Longrightarrow> dpValid tbl ! m \<Longrightarrow> dpPayout tbl ! m < bp"
  using dp_best_prefix [OF v0 p0 k] b unfolding dp_best_def by auto

section \<open>What the DP optimizer returns\<close>

lemma dp_core:
  assumes b: "dp_best (dp_sweep truck fs) (2 ^ length fs) = (bp, bm)"
  shows "reachable truck fs bm"
    and "bp = maskPayout fs bm"
    and "dpWeight (dp_sweep truck fs) ! bm = maskWeight fs bm"
    and "dpVolume (dp_sweep truck fs) ! bm = maskVolume fs bm"
    and "bp = Max (maskPayout fs ` {m. reachable truck fs m})"
    and "bm = (LEAST m. reachable truck fs m \<and> maskPayout fs m = bp)"
proof -
  let ?tbl = "dp_sweep truck fs"
  have pos: "(0::nat) < 2 ^ length fs" by simp
  have v0: "dpValid ?tbl ! 0"
    using dp_sweep_valid_iff [OF pos, of truck] by (simp add: reachable_empty)
  have p0: "dpPayout ?tbl ! 0 = 0"
    using dp_sweep_values(1) [OF reachable_empty, of truck fs] by (simp add: maskTotals_0)
  note props = dp_best_props [OF v0 p0 pos b]
  show r: "reachable truck fs bm"
    using props(1,2) dp_sweep_valid_iff by blast
  show pb: "bp = maskPayout fs bm"
    using props(3) dp_sweep_values(1) [OF r] by simp
  show "dpWeight ?tbl ! bm = maskWeight fs bm" "dpVolume ?tbl ! bm = maskVolume fs bm"
    using dp_sweep_values [OF r] by simp_all
  have le: "maskPayout fs m \<le> bp" if "reachable truck fs m" for m
    using props(4) [of m] that reachable_less [OF that] dp_sweep_valid_iff [of m fs truck]
      dp_sweep_values(1) [OF that] by simp
  have lt: "maskPayout fs m < bp" if "reachable truck fs m" "m < bm" for m
    using props(5) [of m] that reachable_less [OF that(1)] dp_sweep_valid_iff [of m fs truck]
      dp_sweep_values(1) [OF that(1)] by simp
  show "bp = Max (maskPayout fs ` {m. reachable truck fs m})"
  proof (rule sym, rule Max_eqI)
    show "finite (maskPayout fs ` {m. reachable truck fs m})"
      using finite_reachable by simp
    show "\<And>y. y \<in> maskPayout fs ` {m. reachable truck fs m} \<Longrightarrow> y \<le> bp"
      using le by auto
    show "bp \<in> maskPayout fs ` {m. reachable truck fs m}"
      using r pb by auto
  qed
  show "bm = (LEAST m. reachable truck fs m \<and> maskPayout fs m = bp)"
  proof (rule sym, rule Least_equality)
    show "reachable truck fs bm \<and> maskPayout fs bm = bp" using r pb by simp
    fix y assume "reachable truck fs y \<and> maskPayout fs y = bp"
    then show "bm \<le> y" using lt [of y] by (cases "y < bm") auto
  qed
qed

lemma reachable_Nil: "reachable truck [] m \<longleftrightarrow> m = 0"
  using reachable_less [of truck "[]" m] reachable_empty [of truck "[]"] by auto

text \<open>What \<open>DPOptimizer_Optimize\<close> returns, whenever it returns.\<close>

lemma DP_result:
  assumes "DPOptimizer_Optimize truck orders = Inr r"
  defines "fs \<equiv> FilterFeasibleOrders truck orders"
  shows "\<exists>bm. reachable truck fs bm
           \<and> r = \<lparr>SelectedOrders = extractOrders bm fs, TotalPayout = maskPayout fs bm,
                   TotalWeight = maskWeight fs bm, TotalVolume = maskVolume fs bm\<rparr>
           \<and> maskPayout fs bm = Max (maskPayout fs ` {m. reachable truck fs m})
           \<and> bm = (LEAST m. reachable truck fs m
                            \<and> maskPayout fs m = Max (maskPayout fs ` {m. reachable truck fs m}))"
proof (cases "fs = []")
  case True
  then have r: "r = emptyResult"
    using assms(1) by (auto simp: DPOptimizer_Optimize_def fs_def Let_def split: if_splits)
  have s: "{m. reachable truck [] m} = {0}" by (auto simp: reachable_Nil)
  show ?thesis
    apply (rule exI [of _ 0])
    apply (simp add: True r emptyResult_def reachable_Nil s maskTotals_0 extractOrders_0)
    done
next
  case False
  obtain bp bm where b: "dp_best (dp_sweep truck fs) (2 ^ length fs) = (bp, bm)"
    by (cases "dp_best (dp_sweep truck fs) (2 ^ length fs)") auto
  from False have ne: "orders \<noteq> []" by (auto simp: fs_def FilterFeasibleOrders_def)
  have r: "r = \<lparr>SelectedOrders = extractOrders bm fs, TotalPayout = bp,
                TotalWeight = dpWeight (dp_sweep truck fs) ! bm,
                TotalVolume = dpVolume (dp_sweep truck fs) ! bm\<rparr>"
  proof -
    have "DPOptimizer_Optimize truck orders
          = (if length fs = 63 then Inl MakeSliceLenOutOfRange
             else if length fs > 63 then Inl IndexOutOfRange
             else Inr \<lparr>SelectedOrders = extractOrders bm fs, TotalPayout = bp,
                TotalWeight = dpWeight (dp_sweep truck fs) ! bm,
                TotalVolume = dpVolume (dp_sweep truck fs) ! bm\<rparr>)"
      using False ne b
      by (simp add: DPOptimizer_Optimize_def fs_def [symmetric] Let_def)
    with assms(1) show ?thesis by (simp split: if_splits)
  qed
  note c = dp_core [OF b]
  show ?thesis
  proof (intro exI [of _ bm] conjI)
    show "reachable truck fs bm" by (rule c(1))
    show "r = \<lparr>SelectedOrders = extractOrders bm fs, TotalPayout = maskPayout fs bm,
                   TotalWeight = maskWeight fs bm, TotalVolume = maskVolume fs bm\<rparr>"
      unfolding r c(3) c(4) using c(2) by simp
    show "maskPayout fs bm = Max (maskPayout fs ` {m. reachable truck fs m})"
      using c(2) c(5) by (rule subst)
    show "bm = (LEAST m. reachable truck fs m
                            \<and> maskPayout fs m = Max (maskPayout fs ` {m. reachable truck fs m}))"
      unfolding c(5) [symmetric] by (rule c(6))
  qed
qed

lemma DP_returns:
  assumes "length orders < 63"
  shows "\<exists>r. DPOptimizer_Optimize truck orders = Inr r"
proof -
  have "length (FilterFeasibleOrders truck orders) \<le> length orders"
    by (simp add: FilterFeasibleOrders_def)
  with assms show ?thesis
    by (auto simp: DPOptimizer_Optimize_def Let_def split: prod.splits)
qed

text \<open>
  Claim C6. With at most 22 orders \<open>DPOptimizer.Optimize\<close> returns, its total payout
  is the greatest payout of a reachable subset mask of the filtered orders (any reachable
  mask, not only the full one), and its selection is decoded from the least mask among
  the reachable masks of that payout.
\<close>

theorem DP_maximum_lowest_mask:
  assumes "length orders \<le> 22"
  shows "let fs = FilterFeasibleOrders truck orders;
             best = Max (maskPayout fs ` {m. reachable truck fs m})
         in \<exists>r. DPOptimizer_Optimize truck orders = Inr r
                \<and> TotalPayout r = best
                \<and> SelectedOrders r
                    = extractOrders (LEAST m. reachable truck fs m \<and> maskPayout fs m = best) fs"
proof -
  from assms obtain r where r: "DPOptimizer_Optimize truck orders = Inr r"
    using DP_returns [of orders truck] by auto
  from DP_result [OF r] show ?thesis
    unfolding Let_def using r by auto
qed

theorem DP_maximum_lowest_mask_witness:
  "DPOptimizer_Optimize truck100 ordersTie = Inr resultTie
   \<and> TotalPayout resultTie
       = Max (maskPayout (FilterFeasibleOrders truck100 ordersTie)
                ` {m. reachable truck100 (FilterFeasibleOrders truck100 ordersTie) m})
   \<and> SelectedOrders resultTie
       = extractOrders
           (LEAST m. reachable truck100 (FilterFeasibleOrders truck100 ordersTie) m
                     \<and> maskPayout (FilterFeasibleOrders truck100 ordersTie) m
                         = Max (maskPayout (FilterFeasibleOrders truck100 ordersTie)
                                  ` {m. reachable truck100 (FilterFeasibleOrders truck100 ordersTie) m}))
           (FilterFeasibleOrders truck100 ordersTie)"
proof -
  have ev: "DPOptimizer_Optimize truck100 ordersTie = Inr resultTie" by code_simp
  have len: "length ordersTie \<le> 22" by (simp add: ordersTie_def)
  from DP_maximum_lowest_mask [OF len, of truck100] ev show ?thesis
    by (auto simp: Let_def)
qed

section \<open>Sorting and filtering keep the orders\<close>

lemma swap_fold_mset:
  assumes "i < length s0" "\<forall>j \<in> set js. j < length s0"
  shows "mset (fold (\<lambda>j s. if gt (s ! j) (s ! i) then s[i := s ! j, j := s ! i] else s) js s0) = mset s0
       \<and> length (fold (\<lambda>j s. if gt (s ! j) (s ! i) then s[i := s ! j, j := s ! i] else s) js s0) = length s0"
  using assms
proof (induction js arbitrary: s0)
  case Nil
  then show ?case by simp
next
  case (Cons j js)
  let ?s1 = "if gt (s0 ! j) (s0 ! i) then s0[i := s0 ! j, j := s0 ! i] else s0"
  have j: "j < length s0" using Cons.prems by simp
  have m1: "mset ?s1 = mset s0" using mset_swap [OF j Cons.prems(1)] by simp
  have l1: "length ?s1 = length s0" by simp
  have "i < length ?s1" "\<forall>j \<in> set js. j < length ?s1" using Cons.prems by simp_all
  from Cons.IH [OF this] m1 l1 show ?case by simp
qed

lemma sortByValueDensity_by_mset: "mset (sortByValueDensity_by gt os) = mset os"
proof -
  define inner where "inner = (\<lambda>i (sorted :: Order list).
             fold (\<lambda>j sorted. if gt (sorted ! j) (sorted ! i)
                               then sorted[i := sorted ! j, j := sorted ! i] else sorted)
                  [i + 1 ..< length sorted] sorted)"
  have step: "mset (inner i s) = mset s \<and> length (inner i s) = length s" if "i < length s" for i s
    unfolding inner_def using swap_fold_mset [OF that, of "[i + 1 ..< length s]" gt] by simp
  have "mset (fold inner is s) = mset s \<and> length (fold inner is s) = length s"
    if "\<forall>i \<in> set is. i < length s" for "is" s
    using that
  proof (induction "is" arbitrary: s)
    case Nil then show ?case by simp
  next
    case (Cons i "is")
    then have "i < length s" by simp
    from step [OF this] Cons show ?case by simp
  qed
  moreover have "\<forall>i \<in> set [0 ..< length os - 1]. i < length os" by auto
  ultimately have "mset (fold inner [0 ..< length os - 1] os) = mset os" by blast
  then show ?thesis
    by (simp add: sortByValueDensity_by_def inner_def)
qed



lemma backtrack_invariant:
  fixes I :: "BacktrackingOptimizer \<Rightarrow> bool" and C :: "Order list \<Rightarrow> nat \<Rightarrow> int \<Rightarrow> int \<Rightarrow> int \<Rightarrow> bool"
  assumes upd: "\<And>b cur i p w v. I b \<Longrightarrow> C cur i p w v \<Longrightarrow>
                 I \<lparr>bestPayout = p, bestOrders = cur, bestWeight = w, bestVolume = v\<rparr>"
    and inc: "\<And>cur i p w v. C cur i p w v \<Longrightarrow> i < length os
               \<Longrightarrow> w + WeightLbs (os ! i) \<le> MaxWeightLbs truck
               \<Longrightarrow> v + VolumeCuft (os ! i) \<le> MaxVolumeCuft truck
               \<Longrightarrow> list_all (CanCombine (os ! i)) cur
               \<Longrightarrow> C (cur @ [os ! i]) (i + 1) (p + Payout (os ! i))
                     (w + WeightLbs (os ! i)) (v + VolumeCuft (os ! i))"
    and exc: "\<And>cur i p w v. C cur i p w v \<Longrightarrow> i < length os \<Longrightarrow> C cur (i + 1) p w v"
    and b: "I b" and c: "C cur i p w v"
  shows "I (backtrack truck os cur i p w v b)"
  using assms
proof (induction truck os cur i p w v b rule: backtrack.induct)
  case (1 truck orders currentOrders index currentPayout currentWeight currentVolume b)
  define b1 where "b1 = (if currentPayout > bestPayout b
                then \<lparr>bestPayout = currentPayout, bestOrders = currentOrders,
                      bestWeight = currentWeight, bestVolume = currentVolume\<rparr>
                else b)"
  have Ib1: "I b1" unfolding b1_def using "1.prems"(1) [OF "1.prems"(4,5)] "1.prems"(4) by simp
  show ?case
  proof (cases "index \<ge> length orders")
    case True
    then show ?thesis using Ib1 by (subst backtrack.simps) (simp add: b1_def Let_def)
  next
    case nl: False
    show ?thesis
    proof (cases "currentPayout + sum_list (map Payout (drop index orders)) \<le> bestPayout b1")
      case True
      then show ?thesis using Ib1 nl by (subst backtrack.simps) (simp add: b1_def Let_def)
    next
      case np: False
      define order where "order = orders ! index"
      define canInclude where "canInclude \<longleftrightarrow>
         (currentWeight + WeightLbs order \<le> MaxWeightLbs truck
          \<and> currentVolume + VolumeCuft order \<le> MaxVolumeCuft truck)
         \<and> list_all (CanCombine order) currentOrders"
      define b2 where "b2 = (if canInclude
          then backtrack truck orders (currentOrders @ [order]) (index + 1)
                 (currentPayout + Payout order) (currentWeight + WeightLbs order)
                 (currentVolume + VolumeCuft order) b1
          else b1)"
      have eq: "backtrack truck orders currentOrders index currentPayout currentWeight currentVolume b
                = backtrack truck orders currentOrders (index + 1) currentPayout currentWeight currentVolume b2"
        using nl np
        by (subst backtrack.simps) (simp add: b1_def b2_def canInclude_def order_def Let_def)
      have Ib2: "I b2"
      proof (cases canInclude)
        case False
        then show ?thesis using Ib1 by (simp add: b2_def)
      next
        case True
        have C': "C (currentOrders @ [order]) (index + 1) (currentPayout + Payout order)
                   (currentWeight + WeightLbs order) (currentVolume + VolumeCuft order)"
          using "1.prems"(2) [OF "1.prems"(5)] nl True by (simp add: canInclude_def order_def)
        have "I (backtrack truck orders (currentOrders @ [order]) (index + 1)
                 (currentPayout + Payout order) (currentWeight + WeightLbs order)
                 (currentVolume + VolumeCuft order) b1)"
          apply (rule "1.IH"(1) [OF b1_def nl refl _ order_def refl refl refl])
          using np True "1.prems"(1,2,3) Ib1 C' by (auto simp: canInclude_def b1_def)
        then show ?thesis using True by (simp add: b2_def)
      qed
      have C'': "C currentOrders (index + 1) currentPayout currentWeight currentVolume"
        using "1.prems"(3) [OF "1.prems"(5)] nl by simp
      have "I (backtrack truck orders currentOrders (index + 1) currentPayout currentWeight currentVolume b2)"
        apply (rule "1.IH"(2) [OF b1_def nl refl _ order_def refl refl refl])
        using np "1.prems"(1,2,3) Ib2 C'' by (auto simp: canInclude_def b1_def b2_def order_def)
      then show ?thesis by (simp add: eq)
    qed
  qed
qed

lemma filter_feasible_mset: "mset (FilterFeasibleOrders truck os) \<subseteq># mset os"
  by (simp add: FilterFeasibleOrders_def)

lemma filter_feasible_subseq: "subseq (FilterFeasibleOrders truck os) os"
  by (simp add: FilterFeasibleOrders_def)

lemma subseq_mset_le: "subseq xs ys \<Longrightarrow> mset xs \<subseteq># mset ys"
  by (induction rule: list_emb.induct) (auto intro: subset_mset.order_trans)

lemma subseq_take_self: "subseq (take n xs) xs"
  by (metis append_take_drop_id subseq_rev_drop_many subseq_order.order_refl list_emb_append2 subseq_order.eq_iff)

lemma extractOrders_subseq: "subseq (extractOrders m os) os"
proof -
  have "subseq (map (\<lambda>i. os ! i) (filter (bit m) [0 ..< length os])) (map (\<lambda>i. os ! i) [0 ..< length os])"
    by (rule subseq_map) simp
  then show ?thesis by (simp add: extractOrders_bit map_nth)
qed

section \<open>Backtracking: the best-so-far is a consistent, feasible selection\<close>

lemma backtrack_consistent:
  fixes truck :: Truck
  assumes b: "subseq (bestOrders b) os" "bestPayout b = sum_list (map Payout (bestOrders b))"
     "bestWeight b = sum_list (map WeightLbs (bestOrders b))"
     "bestVolume b = sum_list (map VolumeCuft (bestOrders b))"
    and c: "i \<le> length os" "subseq cur (take i os)" "p = sum_list (map Payout cur)"
      "w = sum_list (map WeightLbs cur)" "v = sum_list (map VolumeCuft cur)"
  defines "b' \<equiv> backtrack truck os cur i p w v b"
  shows "subseq (bestOrders b') os \<and> bestPayout b' = sum_list (map Payout (bestOrders b'))
     \<and> bestWeight b' = sum_list (map WeightLbs (bestOrders b'))
     \<and> bestVolume b' = sum_list (map VolumeCuft (bestOrders b'))"
  unfolding b'_def
proof (rule backtrack_invariant [where
      I = "\<lambda>b. subseq (bestOrders b) os \<and> bestPayout b = sum_list (map Payout (bestOrders b))
     \<and> bestWeight b = sum_list (map WeightLbs (bestOrders b))
     \<and> bestVolume b = sum_list (map VolumeCuft (bestOrders b))"
      and C = "\<lambda>cur i p w v. i \<le> length os \<and> subseq cur (take i os) \<and> p = sum_list (map Payout cur)
     \<and> w = sum_list (map WeightLbs cur) \<and> v = sum_list (map VolumeCuft cur)"], goal_cases)
  case (1 b cur i p w v)
  then have "subseq cur os" using subseq_take_self subseq_order.order_trans by blast
  with 1 show ?case by simp
next
  case (2 cur i p w v)
  then have "subseq (cur @ [os ! i]) (take i os @ [os ! i])"
    by (simp add: list_emb_append_mono)
  with 2 show ?case by (simp add: take_Suc_conv_app_nth)
next
  case (3 cur i p w v)
  then have "subseq cur (take i os @ [os ! i])"
    by (simp add: list_emb_prefix)
  with 3 show ?case by (simp add: take_Suc_conv_app_nth)
next
  case 4 then show ?case using b by simp
next
  case 5 then show ?case using c by simp
qed

lemma backtrack_feasible:
  fixes os :: "Order list" and i :: nat and p :: int
  assumes b: "\<forall>x \<in> set (bestOrders b). \<forall>y \<in> set (bestOrders b). CanCombine x y"
     "bestWeight b \<le> MaxWeightLbs truck" "bestVolume b \<le> MaxVolumeCuft truck"
    and c: "\<forall>x \<in> set cur. \<forall>y \<in> set cur. CanCombine x y"
      "w \<le> MaxWeightLbs truck" "v \<le> MaxVolumeCuft truck"
  defines "b' \<equiv> backtrack truck os cur i p w v b"
  shows "(\<forall>x \<in> set (bestOrders b'). \<forall>y \<in> set (bestOrders b'). CanCombine x y)
     \<and> bestWeight b' \<le> MaxWeightLbs truck \<and> bestVolume b' \<le> MaxVolumeCuft truck"
  unfolding b'_def
proof (rule backtrack_invariant [where
      I = "\<lambda>b. (\<forall>x \<in> set (bestOrders b). \<forall>y \<in> set (bestOrders b). CanCombine x y)
     \<and> bestWeight b \<le> MaxWeightLbs truck \<and> bestVolume b \<le> MaxVolumeCuft truck"
      and C = "\<lambda>cur i p w v. (\<forall>x \<in> set cur. \<forall>y \<in> set cur. CanCombine x y)
     \<and> w \<le> MaxWeightLbs truck \<and> v \<le> MaxVolumeCuft truck"], goal_cases)
  case (1 b cur i p w v)
  then show ?case by simp
next
  case (2 cur i p w v)
  then show ?case
    by (auto simp: list_all_iff CanCombine_refl intro: CanCombine_sym)
next
  case (3 cur i p w v)
  then show ?case by simp
next
  case 4 then show ?case using b by simp
next
  case 5 then show ?case using c by simp
qed

lemma BT_consistent: "result_consistent orders (BacktrackingOptimizer_Optimize truck orders)"
proof -
  let ?fs = "FilterFeasibleOrders truck orders"
  let ?b0 = "\<lparr>bestPayout = 0, bestOrders = [], bestWeight = 0, bestVolume = 0\<rparr>"
  define b where "b = backtrack truck ?fs [] 0 0 0 0 ?b0"
  have c: "subseq (bestOrders b) ?fs
     \<and> bestPayout b = sum_list (map Payout (bestOrders b))
     \<and> bestWeight b = sum_list (map WeightLbs (bestOrders b))
     \<and> bestVolume b = sum_list (map VolumeCuft (bestOrders b))"
    unfolding b_def by (rule backtrack_consistent) simp_all
  then have "mset (bestOrders b) \<subseteq># mset ?fs" using subseq_mset_le by blast
  then have m: "mset (bestOrders b) \<subseteq># mset orders"
    using filter_feasible_mset subset_mset.order_trans by blast
  then have "set (bestOrders b) \<subseteq> set orders" using set_mset_mono by fastforce
  with c m show ?thesis
    by (simp add: result_consistent_def BacktrackingOptimizer_Optimize_def Let_def b_def [symmetric])
qed

lemma BT_feasible:
  assumes "0 \<le> MaxWeightLbs truck" "0 \<le> MaxVolumeCuft truck"
  shows "result_feasible truck (BacktrackingOptimizer_Optimize truck orders)"
proof -
  let ?fs = "FilterFeasibleOrders truck orders"
  let ?b0 = "\<lparr>bestPayout = 0, bestOrders = [], bestWeight = 0, bestVolume = 0\<rparr>"
  let ?b = "backtrack truck ?fs [] 0 0 0 0 ?b0"
  have "(\<forall>x \<in> set (bestOrders ?b). \<forall>y \<in> set (bestOrders ?b). CanCombine x y)
     \<and> bestWeight ?b \<le> MaxWeightLbs truck \<and> bestVolume ?b \<le> MaxVolumeCuft truck"
    by (rule backtrack_feasible) (use assms in simp_all)
  moreover from BT_consistent [of orders truck]
  have "bestWeight ?b = sum_list (map WeightLbs (bestOrders ?b))"
       "bestVolume ?b = sum_list (map VolumeCuft (bestOrders ?b))"
    by (simp_all add: result_consistent_def BacktrackingOptimizer_Optimize_def Let_def)
  ultimately show ?thesis
    by (simp add: result_feasible_def BacktrackingOptimizer_Optimize_def Let_def ValidateOrderSet_iff)
qed

section \<open>Greedy: the accumulated selection is consistent and feasible\<close>

lemma greedy_fold_consistent:
  assumes "TotalPayout r0 = sum_list (map Payout (SelectedOrders r0))"
    "TotalWeight r0 = sum_list (map WeightLbs (SelectedOrders r0))"
    "TotalVolume r0 = sum_list (map VolumeCuft (SelectedOrders r0))"
  shows "TotalPayout (fold (greedy_step truck) xs r0) = sum_list (map Payout (SelectedOrders (fold (greedy_step truck) xs r0)))
     \<and> TotalWeight (fold (greedy_step truck) xs r0) = sum_list (map WeightLbs (SelectedOrders (fold (greedy_step truck) xs r0)))
     \<and> TotalVolume (fold (greedy_step truck) xs r0) = sum_list (map VolumeCuft (SelectedOrders (fold (greedy_step truck) xs r0)))
     \<and> mset (SelectedOrders (fold (greedy_step truck) xs r0)) \<subseteq># mset (SelectedOrders r0) + mset xs"
  using assms
proof (induction xs arbitrary: r0)
  case Nil
  then show ?case by simp
next
  case (Cons x xs)
  let ?r1 = "greedy_step truck x r0"
  have s: "TotalPayout ?r1 = sum_list (map Payout (SelectedOrders ?r1))"
    "TotalWeight ?r1 = sum_list (map WeightLbs (SelectedOrders ?r1))"
    "TotalVolume ?r1 = sum_list (map VolumeCuft (SelectedOrders ?r1))"
    using Cons.prems by (simp_all add: greedy_step_def)
  have m: "mset (SelectedOrders ?r1) \<subseteq># mset (SelectedOrders r0) + {#x#}"
    by (simp add: greedy_step_def)
  from Cons.IH [OF s] have ih: "TotalPayout (fold (greedy_step truck) xs ?r1)
      = sum_list (map Payout (SelectedOrders (fold (greedy_step truck) xs ?r1)))"
    "TotalWeight (fold (greedy_step truck) xs ?r1)
      = sum_list (map WeightLbs (SelectedOrders (fold (greedy_step truck) xs ?r1)))"
    "TotalVolume (fold (greedy_step truck) xs ?r1)
      = sum_list (map VolumeCuft (SelectedOrders (fold (greedy_step truck) xs ?r1)))"
    "mset (SelectedOrders (fold (greedy_step truck) xs ?r1)) \<subseteq># mset (SelectedOrders ?r1) + mset xs"
    by simp_all
  have "mset (SelectedOrders ?r1) + mset xs \<subseteq># mset (SelectedOrders r0) + {#x#} + mset xs"
    using m by (simp only: subset_mset.add_right_mono)
  with ih(4) have "mset (SelectedOrders (fold (greedy_step truck) xs ?r1))
                   \<subseteq># mset (SelectedOrders r0) + mset (x # xs)"
    by (simp add: subset_mset.order_trans add.commute add.left_commute)
  with ih(1-3) show ?case by simp
qed

lemma greedy_fold_feasible:
  assumes "\<forall>a \<in> set (SelectedOrders r0). \<forall>b \<in> set (SelectedOrders r0). CanCombine a b"
    "TotalWeight r0 \<le> MaxWeightLbs truck" "TotalVolume r0 \<le> MaxVolumeCuft truck"
  shows "(\<forall>a \<in> set (SelectedOrders (fold (greedy_step truck) xs r0)). \<forall>b \<in> set (SelectedOrders (fold (greedy_step truck) xs r0)). CanCombine a b)
     \<and> TotalWeight (fold (greedy_step truck) xs r0) \<le> MaxWeightLbs truck \<and> TotalVolume (fold (greedy_step truck) xs r0) \<le> MaxVolumeCuft truck"
  using assms
proof (induction xs arbitrary: r0)
  case Nil
  then show ?case by simp
next
  case (Cons x xs)
  let ?r1 = "greedy_step truck x r0"
  have "\<forall>a \<in> set (SelectedOrders ?r1). \<forall>b \<in> set (SelectedOrders ?r1). CanCombine a b"
    using Cons.prems(1)
    by (auto simp: greedy_step_def list_all_iff CanCombine_refl intro: CanCombine_sym)
  moreover have "TotalWeight ?r1 \<le> MaxWeightLbs truck" "TotalVolume ?r1 \<le> MaxVolumeCuft truck"
    using Cons.prems(2,3) by (auto simp: greedy_step_def CanFit_def Let_def)
  ultimately show ?case using Cons.IH [of ?r1] by simp
qed

lemma Greedy_consistent: "result_consistent orders (GreedyOptimizer_Optimize_by gt truck orders)"
proof -
  let ?fs = "FilterFeasibleOrders truck orders"
  let ?sorted = "sortByValueDensity_by gt ?fs"
  define r where "r = fold (greedy_step truck) ?sorted emptyResult"
  have c: "TotalPayout r = sum_list (map Payout (SelectedOrders r))
     \<and> TotalWeight r = sum_list (map WeightLbs (SelectedOrders r))
     \<and> TotalVolume r = sum_list (map VolumeCuft (SelectedOrders r))
     \<and> mset (SelectedOrders r) \<subseteq># mset (SelectedOrders emptyResult) + mset ?sorted"
    unfolding r_def by (rule greedy_fold_consistent) (simp_all add: emptyResult_def)
  then have "mset (SelectedOrders r) \<subseteq># mset ?fs"
    by (simp add: emptyResult_def sortByValueDensity_by_mset)
  then have m: "mset (SelectedOrders r) \<subseteq># mset orders"
    using filter_feasible_mset subset_mset.order_trans by blast
  then have "set (SelectedOrders r) \<subseteq> set orders" using set_mset_mono by fastforce
  with c m show ?thesis
    by (simp add: result_consistent_def GreedyOptimizer_Optimize_by_def Let_def r_def [symmetric])
qed

lemma Greedy_feasible:
  assumes "0 \<le> MaxWeightLbs truck" "0 \<le> MaxVolumeCuft truck"
  shows "result_feasible truck (GreedyOptimizer_Optimize_by gt truck orders)"
proof -
  let ?fs = "FilterFeasibleOrders truck orders"
  let ?sorted = "sortByValueDensity_by gt ?fs"
  define r where "r = fold (greedy_step truck) ?sorted emptyResult"
  have "(\<forall>a \<in> set (SelectedOrders r). \<forall>b \<in> set (SelectedOrders r). CanCombine a b)
     \<and> TotalWeight r \<le> MaxWeightLbs truck \<and> TotalVolume r \<le> MaxVolumeCuft truck"
    unfolding r_def by (rule greedy_fold_feasible) (use assms in \<open>simp_all add: emptyResult_def\<close>)
  moreover from Greedy_consistent [of orders gt truck]
  have "TotalWeight r = sum_list (map WeightLbs (SelectedOrders r))"
       "TotalVolume r = sum_list (map VolumeCuft (SelectedOrders r))"
    by (simp_all add: result_consistent_def GreedyOptimizer_Optimize_by_def Let_def r_def)
  ultimately show ?thesis
    by (simp add: result_feasible_def GreedyOptimizer_Optimize_by_def Let_def ValidateOrderSet_iff
          r_def [symmetric])
qed

section \<open>DP: the result is consistent and feasible\<close>

lemma DP_consistent:
  assumes "DPOptimizer_Optimize truck orders = Inr r"
  shows "result_consistent orders r"
proof -
  let ?fs = "FilterFeasibleOrders truck orders"
  from DP_result [OF assms] obtain bm where
    r: "r = \<lparr>SelectedOrders = extractOrders bm ?fs, TotalPayout = maskPayout ?fs bm,
                   TotalWeight = maskWeight ?fs bm, TotalVolume = maskVolume ?fs bm\<rparr>"
    by blast
  have "mset (extractOrders bm ?fs) \<subseteq># mset ?fs"
    using extractOrders_subseq subseq_mset_le by blast
  then have m: "mset (extractOrders bm ?fs) \<subseteq># mset orders"
    using filter_feasible_mset subset_mset.order_trans by blast
  then have "set (extractOrders bm ?fs) \<subseteq> set orders" using set_mset_mono by fastforce
  with m show ?thesis
    by (simp add: result_consistent_def r maskPayout_def maskWeight_def maskVolume_def)
qed

lemma DP_feasible:
  assumes "DPOptimizer_Optimize truck orders = Inr r"
    and "0 \<le> MaxWeightLbs truck" "0 \<le> MaxVolumeCuft truck"
  shows "result_feasible truck r"
proof -
  let ?fs = "FilterFeasibleOrders truck orders"
  from DP_result [OF assms(1)] obtain bm where rb: "reachable truck ?fs bm" and
    r: "r = \<lparr>SelectedOrders = extractOrders bm ?fs, TotalPayout = maskPayout ?fs bm,
                   TotalWeight = maskWeight ?fs bm, TotalVolume = maskVolume ?fs bm\<rparr>"
    by blast
  from reachable_fits [OF rb assms(2,3)] reachable_ValidateOrderSet [OF rb]
  show ?thesis
    by (simp add: result_feasible_def r maskWeight_def maskVolume_def)
qed

text \<open>
  Claim C10. The result of each optimizer is internally consistent: its three totals are
  the sums of payout, weight and volume over its selected orders, and every selected
  order is one of the input orders.
\<close>

theorem results_consistent:
  "(\<forall>r. DPOptimizer_Optimize truck orders = Inr r \<longrightarrow> result_consistent orders r)
   \<and> result_consistent orders (BacktrackingOptimizer_Optimize truck orders)
   \<and> result_consistent orders (GreedyOptimizer_Optimize_by gt truck orders)"
  using DP_consistent BT_consistent Greedy_consistent by blast

theorem results_consistent_witness:
  "DPOptimizer_Optimize truck44 scenarioA = Inr resultA
   \<and> result_consistent scenarioA resultA
   \<and> result_consistent scenarioA (BacktrackingOptimizer_Optimize truck44 scenarioA)
   \<and> result_consistent scenarioA (GreedyOptimizer_Optimize_by density_gt truck44 scenarioA)"
proof -
  have ev: "DPOptimizer_Optimize truck44 scenarioA = Inr resultA" by code_simp
  show ?thesis
    using results_consistent [of truck44 scenarioA density_gt] ev by simp
qed

text \<open>
  Claim C3. For a truck whose capacities are not negative, the selection of each
  optimizer weighs at most \<open>MaxWeightLbs\<close>, fills at most \<open>MaxVolumeCuft\<close> and passes
  \<open>ValidateOrderSet\<close>.
\<close>

theorem results_feasible:
  assumes "0 \<le> MaxWeightLbs truck" and "0 \<le> MaxVolumeCuft truck"
  shows "(\<forall>r. DPOptimizer_Optimize truck orders = Inr r \<longrightarrow> result_feasible truck r)
   \<and> result_feasible truck (BacktrackingOptimizer_Optimize truck orders)
   \<and> result_feasible truck (GreedyOptimizer_Optimize_by gt truck orders)"
  using DP_feasible BT_feasible Greedy_feasible assms by blast

theorem results_feasible_witness:
  "DPOptimizer_Optimize truck44 scenarioA = Inr resultA
   \<and> result_feasible truck44 resultA
   \<and> result_feasible truck44 (BacktrackingOptimizer_Optimize truck44 scenarioA)
   \<and> result_feasible truck44 (GreedyOptimizer_Optimize_by density_gt truck44 scenarioA)"
proof -
  have ev: "DPOptimizer_Optimize truck44 scenarioA = Inr resultA" by code_simp
  have w: "0 \<le> MaxWeightLbs truck44" and v: "0 \<le> MaxVolumeCuft truck44"
    by (simp_all add: truck44_def)
  show ?thesis
    using results_feasible [OF w v, of scenarioA density_gt] ev by simp
qed

section \<open>Every feasible selection is a reachable mask\<close>

lemma sum_list_mset_cong:
  "mset xs = mset ys \<Longrightarrow> sum_list (map f xs) = (sum_list (map f ys) :: int)"
  by (metis mset_map sum_mset_sum_list)

lemma mset_subset_add_notin:
  "A \<subseteq># add_mset x B \<Longrightarrow> x \<notin># A \<Longrightarrow> A \<subseteq># B"
  by (metis Diff_eq_empty_iff_mset minus_add_mset_if_not_in_lhs)

lemma mset_subseq_ex:
  "mset s \<subseteq># mset os \<Longrightarrow> \<exists>s'. subseq s' os \<and> mset s' = mset s"
proof (induction os arbitrary: s)
  case Nil
  then show ?case by simp
next
  case (Cons x xs)
  show ?case
  proof (cases "x \<in># mset s")
    case True
    then obtain t where t: "mset t = mset s - {#x#}" using ex_mset by blast
    have "mset t \<subseteq># mset xs"
      using Cons.prems True t by (simp add: insert_subset_eq_iff subset_eq_diff_conv)
    from Cons.IH [OF this] obtain s' where s': "subseq s' xs" "mset s' = mset t" by blast
    have "subseq (x # s') (x # xs)" using s'(1) by simp
    moreover have "mset (x # s') = mset s" using s'(2) t True by simp
    ultimately show ?thesis by blast
  next
    case False
    then have "mset s \<subseteq># mset xs"
      using Cons.prems mset_subset_add_notin by fastforce
    from Cons.IH [OF this] obtain s' where "subseq s' xs" "mset s' = mset s" by blast
    then show ?thesis by (meson list_emb_Cons)
  qed
qed

lemma extractOrders_Cons:
  "extractOrders m (x # xs) = (if bit m 0 then [x] else []) @ extractOrders (m div 2) xs"
proof -
  have u: "[0 ..< Suc (length xs)] = 0 # map Suc [0 ..< length xs]"
    by (simp add: upt_conv_Cons map_Suc_upt del: upt_Suc)
  have "filter (bit m) (map Suc [0 ..< length xs]) = map Suc (filter (bit (m div 2)) [0 ..< length xs])"
    by (simp add: filter_map comp_def bit_Suc)
  then show ?thesis
    unfolding extractOrders_bit by (simp add: u comp_def del: upt_Suc)
qed

lemma subseq_mask_ex:
  "subseq s os \<Longrightarrow> \<exists>m < 2 ^ length os. extractOrders m os = s"
proof (induction rule: list_emb.induct)
  case (list_emb_Nil ys)
  have "extractOrders 0 ys = []" by (rule extractOrders_0)
  then show ?case by (intro exI [of _ 0]) simp
next
  case (list_emb_Cons xs ys y)
  then obtain m where m: "m < 2 ^ length ys" "extractOrders m ys = xs" by blast
  have "extractOrders (2 * m) (y # ys) = xs"
    by (simp add: extractOrders_Cons m(2) bit_0)
  moreover have "2 * m < 2 ^ length (y # ys)" using m(1) by simp
  ultimately show ?case by blast
next
  case (list_emb_Cons2 x y xs ys)
  then obtain m where m: "m < 2 ^ length ys" "extractOrders m ys = xs" by blast
  have "extractOrders (2 * m + 1) (y # ys) = x # xs"
    using list_emb_Cons2(1) by (simp add: extractOrders_Cons m(2) bit_0)
  moreover have "2 * m + 1 < 2 ^ length (y # ys)" using m(1) by simp
  ultimately show ?case by blast
qed

lemma nonzero_has_bit: "(m :: nat) \<noteq> 0 \<Longrightarrow> \<exists>i. bit m i"
  by (metis bit_0_eq bit_eq_iff bot_apply bot_bool_def) 

lemma valid_mask_reachable:
  assumes nn: "\<forall>o1 \<in> set os. 0 \<le> WeightLbs o1 \<and> 0 \<le> VolumeCuft o1"
    and m: "m < 2 ^ length os"
    and compat: "\<forall>i < length os. \<forall>j < length os. bit m i \<longrightarrow> bit m j \<longrightarrow> CanCombine (os ! i) (os ! j)"
    and fits: "maskWeight os m \<le> MaxWeightLbs truck" "maskVolume os m \<le> MaxVolumeCuft truck"
  shows "reachable truck os m"
  using m compat fits
proof (induction m rule: less_induct)
  case (less m)
  show ?case
  proof (cases "m = 0")
    case True
    then show ?thesis by (simp add: reachable_empty)
  next
    case False
    then obtain i where i: "bit m i" using nonzero_has_bit by blast
    have il: "i < length os" using lt_pow_bit [OF less.prems(1) i] .
    define m' where "m' = unset_bit i m"
    have lt: "m' < m" using unset_bit_less [OF i] by (simp add: m'_def)
    have nb: "\<not> bit m' i" by (simp add: m'_def bit_unset_bit_iff)
    have eq: "m = set_bit i m'" using set_unset_bit_nat [OF i] by (simp add: m'_def)
    have sub: "\<And>j. bit m' j \<Longrightarrow> bit m j" by (simp add: m'_def bit_unset_bit_iff)
    have w: "maskWeight os m = maskWeight os m' + WeightLbs (os ! i)"
      and v: "maskVolume os m = maskVolume os m' + VolumeCuft (os ! i)"
      unfolding eq using il nb by (simp_all add: maskWeight_set_bit maskVolume_set_bit)
    have nni: "0 \<le> WeightLbs (os ! i)" "0 \<le> VolumeCuft (os ! i)" using nn il by simp_all
    have r': "reachable truck os m'"
    proof (rule less.IH [OF lt])
      show "m' < 2 ^ length os" using lt less.prems(1) by simp
      show "\<forall>i < length os. \<forall>j < length os. bit m' i \<longrightarrow> bit m' j \<longrightarrow> CanCombine (os ! i) (os ! j)"
        using less.prems(2) sub by blast
      show "maskWeight os m' \<le> MaxWeightLbs truck" using less.prems(3) w nni by simp
      show "maskVolume os m' \<le> MaxVolumeCuft truck" using less.prems(4) v nni by simp
    qed
    have "insertable truck os m' i"
      unfolding insertable_def using il nb less.prems(2,3,4) i sub w v by auto
    from reachable_insert [OF r' this] show ?thesis by (simp add: eq [symmetric])
  qed
qed

lemma DP_upper_bound:
  assumes d: "DPOptimizer_Optimize truck orders = Inr d"
    and nn: "\<forall>o1 \<in> set orders. 0 \<le> WeightLbs o1 \<and> 0 \<le> VolumeCuft o1"
    and s: "feasible_selection truck (FilterFeasibleOrders truck orders) s"
  shows "sum_list (map Payout s) \<le> TotalPayout d"
proof -
  let ?fs = "FilterFeasibleOrders truck orders"
  from s have ms: "mset s \<subseteq># mset ?fs" and vs: "ValidateOrderSet s"
    and ws: "sum_list (map WeightLbs s) \<le> MaxWeightLbs truck"
    and vols: "sum_list (map VolumeCuft s) \<le> MaxVolumeCuft truck"
    by (simp_all add: feasible_selection_def)
  from mset_subseq_ex [OF ms] obtain s' where s': "subseq s' ?fs" "mset s' = mset s" by blast
  from subseq_mask_ex [OF s'(1)] obtain m where m: "m < 2 ^ length ?fs" "extractOrders m ?fs = s'"
    by blast
  have sets: "set s' = set s" using s'(2) by (metis set_mset_mset)
  have nnf: "\<forall>o1 \<in> set ?fs. 0 \<le> WeightLbs o1 \<and> 0 \<le> VolumeCuft o1"
    using nn by (simp add: FilterFeasibleOrders_def)
  have compat: "\<forall>i < length ?fs. \<forall>j < length ?fs. bit m i \<longrightarrow> bit m j \<longrightarrow> CanCombine (?fs ! i) (?fs ! j)"
  proof (intro allI impI)
    fix i j assume "i < length ?fs" "j < length ?fs" "bit m i" "bit m j"
    then have "?fs ! i \<in> set (extractOrders m ?fs)" "?fs ! j \<in> set (extractOrders m ?fs)"
      unfolding set_extractOrders by blast+
    then show "CanCombine (?fs ! i) (?fs ! j)"
      using vs unfolding ValidateOrderSet_iff m(2) sets by blast
  qed
  have "maskWeight ?fs m = sum_list (map WeightLbs s)" "maskVolume ?fs m = sum_list (map VolumeCuft s)"
    "maskPayout ?fs m = sum_list (map Payout s)"
    unfolding maskWeight_def maskVolume_def maskPayout_def m(2)
    using sum_list_mset_cong [OF s'(2)] by simp_all
  then have r: "reachable truck ?fs m" and p: "maskPayout ?fs m = sum_list (map Payout s)"
    using valid_mask_reachable [OF nnf m(1) compat] ws vols by simp_all
  from DP_result [OF d] have "TotalPayout d = Max (maskPayout ?fs ` {m. reachable truck ?fs m})"
    by auto
  moreover have "maskPayout ?fs m \<le> Max (maskPayout ?fs ` {m. reachable truck ?fs m})"
    using r finite_reachable by (intro Max_ge) auto
  ultimately show ?thesis using p by simp
qed

section \<open>Backtracking finds every feasible selection\<close>

lemma subseq_Cons_cases:
  assumes "subseq s (x # xs)"
  shows "subseq s xs \<or> (\<exists>s'. s = x # s' \<and> subseq s' xs)"
proof (cases s)
  case Nil
  then show ?thesis by simp
next
  case (Cons y ys)
  then show ?thesis using assms by (cases "x = y") auto
qed

lemma sum_list_map_nonneg:
  "\<forall>x \<in> set xs. 0 \<le> f x \<Longrightarrow> 0 \<le> (sum_list (map f xs) :: int)"
  by (induction xs) auto

lemma subseq_sum_le:
  assumes "subseq s xs" "\<forall>x \<in> set xs. 0 \<le> f x"
  shows "sum_list (map f s) \<le> (sum_list (map f xs) :: int)"
  using assms
  by (induction rule: list_emb.induct) (auto simp: sum_list_map_nonneg add_increasing)

lemma backtrack_complete:
  assumes "\<forall>o1 \<in> set os. 0 \<le> Payout o1 \<and> 0 \<le> WeightLbs o1 \<and> 0 \<le> VolumeCuft o1"
  shows "bestPayout b \<le> bestPayout (backtrack truck os cur i p w v b)
     \<and> (\<forall>s. subseq s (drop i os)
             \<and> (\<forall>x \<in> set cur \<union> set s. \<forall>y \<in> set cur \<union> set s. CanCombine x y)
             \<and> w + sum_list (map WeightLbs s) \<le> MaxWeightLbs truck
             \<and> v + sum_list (map VolumeCuft s) \<le> MaxVolumeCuft truck
           \<longrightarrow> p + sum_list (map Payout s) \<le> bestPayout (backtrack truck os cur i p w v b))"
  using assms
proof (induction truck os cur i p w v b rule: backtrack.induct)
  case (1 truck orders currentOrders index currentPayout currentWeight currentVolume b)
  note nn = "1.prems"
  define b1 where "b1 = (if currentPayout > bestPayout b
                then \<lparr>bestPayout = currentPayout, bestOrders = currentOrders,
                      bestWeight = currentWeight, bestVolume = currentVolume\<rparr>
                else b)"
  have b1b: "bestPayout b \<le> bestPayout b1" and b1p: "currentPayout \<le> bestPayout b1"
    by (simp_all add: b1_def)
  let ?res = "backtrack truck orders currentOrders index currentPayout currentWeight currentVolume b"
  let ?ok = "\<lambda>s. subseq s (drop index orders)
             \<and> (\<forall>x \<in> set currentOrders \<union> set s. \<forall>y \<in> set currentOrders \<union> set s. CanCombine x y)
             \<and> currentWeight + sum_list (map WeightLbs s) \<le> MaxWeightLbs truck
             \<and> currentVolume + sum_list (map VolumeCuft s) \<le> MaxVolumeCuft truck"
  show ?case
  proof (cases "index \<ge> length orders")
    case True
    then have eq: "?res = b1" by (subst backtrack.simps) (simp add: b1_def Let_def)
    show ?thesis unfolding eq using True b1b b1p by (auto dest: list_emb_Nil2)
  next
    case nl: False
    define rem where "rem = sum_list (map Payout (drop index orders))"
    have remb: "sum_list (map Payout s) \<le> rem" if "subseq s (drop index orders)" for s
      unfolding rem_def
      by (rule subseq_sum_le [OF that]) (use nn in \<open>auto dest: in_set_dropD\<close>)
    show ?thesis
    proof (cases "currentPayout + rem \<le> bestPayout b1")
      case True
      then have eq: "?res = b1"
        using nl by (subst backtrack.simps) (simp add: b1_def rem_def Let_def)
      show ?thesis unfolding eq using True b1b remb by fastforce
    next
      case np: False
      define order where "order = orders ! index"
      define canInclude where "canInclude \<longleftrightarrow>
         (currentWeight + WeightLbs order \<le> MaxWeightLbs truck
          \<and> currentVolume + VolumeCuft order \<le> MaxVolumeCuft truck)
         \<and> list_all (CanCombine order) currentOrders"
      let ?inc = "backtrack truck orders (currentOrders @ [order]) (index + 1)
                 (currentPayout + Payout order) (currentWeight + WeightLbs order)
                 (currentVolume + VolumeCuft order) b1"
      define b2 where "b2 = (if canInclude then ?inc else b1)"
      let ?exc = "backtrack truck orders currentOrders (index + 1) currentPayout currentWeight currentVolume b2"
      have eq: "?res = ?exc"
        using nl np
        by (subst backtrack.simps) (simp add: b1_def b2_def canInclude_def order_def rem_def Let_def)
      have ihI: "bestPayout b1 \<le> bestPayout ?inc
          \<and> (\<forall>s. subseq s (drop (index + 1) orders)
             \<and> (\<forall>x \<in> set (currentOrders @ [order]) \<union> set s. \<forall>y \<in> set (currentOrders @ [order]) \<union> set s. CanCombine x y)
             \<and> (currentWeight + WeightLbs order) + sum_list (map WeightLbs s) \<le> MaxWeightLbs truck
             \<and> (currentVolume + VolumeCuft order) + sum_list (map VolumeCuft s) \<le> MaxVolumeCuft truck
           \<longrightarrow> (currentPayout + Payout order) + sum_list (map Payout s) \<le> bestPayout ?inc)"
        if canInclude
        apply (rule "1.IH"(1) [OF b1_def nl rem_def _ order_def refl refl refl])
        using np that nn by (auto simp: canInclude_def)
      have ihE: "bestPayout b2 \<le> bestPayout ?exc
          \<and> (\<forall>s. subseq s (drop (index + 1) orders)
             \<and> (\<forall>x \<in> set currentOrders \<union> set s. \<forall>y \<in> set currentOrders \<union> set s. CanCombine x y)
             \<and> currentWeight + sum_list (map WeightLbs s) \<le> MaxWeightLbs truck
             \<and> currentVolume + sum_list (map VolumeCuft s) \<le> MaxVolumeCuft truck
           \<longrightarrow> currentPayout + sum_list (map Payout s) \<le> bestPayout ?exc)"
        apply (rule "1.IH"(2) [OF b1_def nl rem_def _ order_def refl refl refl])
        using np nn by (auto simp: canInclude_def b2_def)
      have b12: "bestPayout b1 \<le> bestPayout b2" using ihI by (auto simp: b2_def)
      have dr: "drop index orders = order # drop (index + 1) orders"
        using nl by (simp add: order_def Cons_nth_drop_Suc)
      have oin: "order \<in> set orders" using nl by (simp add: order_def)
      have mono: "bestPayout b \<le> bestPayout ?exc" using b1b b12 ihE by linarith
      have main: "currentPayout + sum_list (map Payout s) \<le> bestPayout ?exc" if ok: "?ok s" for s
      proof -
        from ok have "subseq s (order # drop (index + 1) orders)" using dr by simp
        from subseq_Cons_cases [OF this] show ?thesis
        proof
          assume "subseq s (drop (index + 1) orders)"
          with ok ihE show ?thesis by blast
        next
          assume "\<exists>s'. s = order # s' \<and> subseq s' (drop (index + 1) orders)"
          then obtain s' where s': "s = order # s'" "subseq s' (drop (index + 1) orders)" by blast
          have "x \<in> set orders" if "x \<in> set s'" for x
            using list_emb_set [OF s'(2) that] by (auto dest: in_set_dropD)
          then have nns: "0 \<le> sum_list (map WeightLbs s')" "0 \<le> sum_list (map VolumeCuft s')"
            using nn by (auto intro!: sum_list_map_nonneg)
          have ci: canInclude
            unfolding canInclude_def using ok nns by (auto simp: s' list_all_iff)
          have "(currentPayout + Payout order) + sum_list (map Payout s') \<le> bestPayout ?inc"
            using ihI [OF ci] s'(2) ok by (auto simp: s')
          moreover have "bestPayout ?inc \<le> bestPayout ?exc"
            using ihE ci by (simp add: b2_def)
          ultimately show ?thesis by (simp add: s')
        qed
      qed
      show ?thesis unfolding eq using mono main by blast
    qed
  qed
qed

section \<open>The optimality bound\<close>

lemma member_le_sum_list_int:
  assumes "x \<in> set xs" "\<forall>y \<in> set xs. 0 \<le> f y"
  shows "f x \<le> (sum_list (map f xs) :: int)"
  using assms by (induction xs) (auto simp: sum_list_map_nonneg add_increasing add_increasing2)

lemma feasible_selection_filtered:
  assumes nn: "\<forall>o1 \<in> set orders. 0 \<le> WeightLbs o1 \<and> 0 \<le> VolumeCuft o1"
    and s: "feasible_selection truck orders s"
  shows "feasible_selection truck (FilterFeasibleOrders truck orders) s"
proof -
  let ?P = "\<lambda>order. \<not> (WeightLbs order > MaxWeightLbs truck \<or> VolumeCuft order > MaxVolumeCuft truck)"
  from s have ms: "mset s \<subseteq># mset orders"
    and ws: "sum_list (map WeightLbs s) \<le> MaxWeightLbs truck"
    and vs: "sum_list (map VolumeCuft s) \<le> MaxVolumeCuft truck"
    by (simp_all add: feasible_selection_def)
  have sub: "set s \<subseteq> set orders" using ms set_mset_mono by fastforce
  have P: "?P x" if "x \<in> set s" for x
  proof -
    have "WeightLbs x \<le> sum_list (map WeightLbs s)" "VolumeCuft x \<le> sum_list (map VolumeCuft s)"
      using member_le_sum_list_int [OF that] nn sub by (auto simp: subset_iff)
    with ws vs show ?thesis by simp
  qed
  have "filter_mset ?P (mset s) \<subseteq># filter_mset ?P (mset orders)"
    using ms by (rule multiset_filter_mono)
  moreover have "filter_mset ?P (mset s) = mset s"
    using P by (simp add: filter_mset_eq_conv)
  ultimately have "mset s \<subseteq># mset (FilterFeasibleOrders truck orders)"
    by (simp add: FilterFeasibleOrders_def)
  with s show ?thesis by (simp add: feasible_selection_def)
qed

lemma BT_upper_bound:
  assumes nn: "\<forall>o1 \<in> set orders. 0 \<le> Payout o1 \<and> 0 \<le> WeightLbs o1 \<and> 0 \<le> VolumeCuft o1"
    and s: "feasible_selection truck (FilterFeasibleOrders truck orders) s"
  shows "sum_list (map Payout s) \<le> TotalPayout (BacktrackingOptimizer_Optimize truck orders)"
proof -
  let ?fs = "FilterFeasibleOrders truck orders"
  let ?b0 = "\<lparr>bestPayout = 0, bestOrders = [], bestWeight = 0, bestVolume = 0\<rparr>"
  from s have ms: "mset s \<subseteq># mset ?fs" and vs: "ValidateOrderSet s"
    and ws: "sum_list (map WeightLbs s) \<le> MaxWeightLbs truck"
    and vols: "sum_list (map VolumeCuft s) \<le> MaxVolumeCuft truck"
    by (simp_all add: feasible_selection_def)
  from mset_subseq_ex [OF ms] obtain s' where s': "subseq s' ?fs" "mset s' = mset s" by blast
  have sets: "set s' = set s" using s'(2) by (metis set_mset_mset)
  have nnf: "\<forall>o1 \<in> set ?fs. 0 \<le> Payout o1 \<and> 0 \<le> WeightLbs o1 \<and> 0 \<le> VolumeCuft o1"
    using nn by (simp add: FilterFeasibleOrders_def)
  have "0 + sum_list (map Payout s') \<le> bestPayout (backtrack truck ?fs [] 0 0 0 0 ?b0)"
    using backtrack_complete [OF nnf, of ?b0 truck "[]" 0 0 0 0] s'(1) vs ws vols
      sum_list_mset_cong [OF s'(2), of WeightLbs] sum_list_mset_cong [OF s'(2), of VolumeCuft]
    unfolding ValidateOrderSet_iff sets [symmetric] by simp
  then show ?thesis
    using sum_list_mset_cong [OF s'(2), of Payout]
    by (simp add: BacktrackingOptimizer_Optimize_def Let_def)
qed

lemma consistent_feasible_selection:
  "result_consistent orders r \<Longrightarrow> result_feasible truck r
   \<Longrightarrow> feasible_selection truck orders (SelectedOrders r)"
  by (simp add: result_consistent_def result_feasible_def feasible_selection_def)

text \<open>
  Claim C2. For at most 22 orders whose payout, weight and volume are not negative and a
  truck whose capacities are not negative, the greedy total payout is at most the DP
  total payout, which is at most the backtracking total payout, and the latter two are
  equal: both are the greatest payout of a feasible selection.
\<close>

theorem optimality_bound:
  assumes len: "length orders \<le> 22"
    and nn: "\<forall>o1 \<in> set orders. 0 \<le> Payout o1 \<and> 0 \<le> WeightLbs o1 \<and> 0 \<le> VolumeCuft o1"
    and tw: "0 \<le> MaxWeightLbs truck" and tv: "0 \<le> MaxVolumeCuft truck"
  shows "\<exists>d. DPOptimizer_Optimize truck orders = Inr d
     \<and> TotalPayout (GreedyOptimizer_Optimize_by gt truck orders) \<le> TotalPayout d
     \<and> TotalPayout d \<le> TotalPayout (BacktrackingOptimizer_Optimize truck orders)
     \<and> TotalPayout d = TotalPayout (BacktrackingOptimizer_Optimize truck orders)
     \<and> feasible_selection truck orders (SelectedOrders d)
     \<and> feasible_selection truck orders (SelectedOrders (BacktrackingOptimizer_Optimize truck orders))
     \<and> (\<forall>s. feasible_selection truck orders s \<longrightarrow> sum_list (map Payout s) \<le> TotalPayout d)"
proof -
  let ?g = "GreedyOptimizer_Optimize_by gt truck orders"
  let ?b = "BacktrackingOptimizer_Optimize truck orders"
  from len obtain d where d: "DPOptimizer_Optimize truck orders = Inr d"
    using DP_returns [of orders truck] by auto
  have nnw: "\<forall>o1 \<in> set orders. 0 \<le> WeightLbs o1 \<and> 0 \<le> VolumeCuft o1" using nn by simp
  have fd: "feasible_selection truck orders (SelectedOrders d)"
    using consistent_feasible_selection DP_consistent [OF d] DP_feasible [OF d tw tv] by blast
  have fb: "feasible_selection truck orders (SelectedOrders ?b)"
    using consistent_feasible_selection BT_consistent BT_feasible [OF tw tv] by blast
  have fg: "feasible_selection truck orders (SelectedOrders ?g)"
    using consistent_feasible_selection Greedy_consistent Greedy_feasible [OF tw tv] by blast
  have upD: "sum_list (map Payout s) \<le> TotalPayout d" if "feasible_selection truck orders s" for s
    using DP_upper_bound [OF d nnw feasible_selection_filtered [OF nnw that]] .
  have upB: "sum_list (map Payout s) \<le> TotalPayout ?b" if "feasible_selection truck orders s" for s
    using BT_upper_bound [OF nn feasible_selection_filtered [OF nnw that]] .
  have pd: "TotalPayout d = sum_list (map Payout (SelectedOrders d))"
    using DP_consistent [OF d] by (simp add: result_consistent_def)
  have pb: "TotalPayout ?b = sum_list (map Payout (SelectedOrders ?b))"
    using BT_consistent [of orders truck] by (simp add: result_consistent_def)
  have pg: "TotalPayout ?g = sum_list (map Payout (SelectedOrders ?g))"
    using Greedy_consistent [of orders gt truck] by (simp add: result_consistent_def)
  have "TotalPayout ?g \<le> TotalPayout d" using upD [OF fg] pg by simp
  moreover have "TotalPayout d \<le> TotalPayout ?b" using upB [OF fd] pd by simp
  moreover have "TotalPayout ?b \<le> TotalPayout d" using upD [OF fb] pb by simp
  ultimately show ?thesis using d fd fb upD by auto
qed

theorem optimality_bound_witness:
  "DPOptimizer_Optimize truck100 ordersABC = Inr resultABC
   \<and> TotalPayout (GreedyOptimizer_Optimize_by density_gt truck100 ordersABC) = 60
   \<and> TotalPayout resultABC = 100
   \<and> TotalPayout (BacktrackingOptimizer_Optimize truck100 ordersABC) = 100
   \<and> TotalPayout (GreedyOptimizer_Optimize_by density_gt truck100 ordersABC) \<le> TotalPayout resultABC
   \<and> TotalPayout resultABC \<le> TotalPayout (BacktrackingOptimizer_Optimize truck100 ordersABC)
   \<and> feasible_selection truck100 ordersABC (SelectedOrders resultABC)"
proof -
  have ev: "DPOptimizer_Optimize truck100 ordersABC = Inr resultABC" by code_simp
  have g: "TotalPayout (GreedyOptimizer_Optimize_by density_gt truck100 ordersABC) = 60" by code_simp
  have b: "TotalPayout (BacktrackingOptimizer_Optimize truck100 ordersABC) = 100" by code_simp
  have len: "length ordersABC \<le> 22" by (simp add: ordersABC_def)
  have nn: "\<forall>o1 \<in> set ordersABC. 0 \<le> Payout o1 \<and> 0 \<le> WeightLbs o1 \<and> 0 \<le> VolumeCuft o1"
    by (simp add: ordersABC_def mkOrder_def)
  have tw: "0 \<le> MaxWeightLbs truck100" and tv: "0 \<le> MaxVolumeCuft truck100"
    by (simp_all add: truck100_def)
  from optimality_bound [OF len nn tw tv, of density_gt] ev g b show ?thesis
    by (auto simp: resultABC_def)
qed

section \<open>Degenerate inputs\<close>

lemma backtrack_Nil: "backtrack truck [] [] 0 0 0 0 \<lparr>bestPayout = 0, bestOrders = [], bestWeight = 0, bestVolume = 0\<rparr>
   = \<lparr>bestPayout = 0, bestOrders = [], bestWeight = 0, bestVolume = 0\<rparr>"
  by (subst backtrack.simps) simp

lemma optimizers_on_no_feasible_order:
  assumes "FilterFeasibleOrders truck orders = []"
  shows "DPOptimizer_Optimize truck orders = Inr emptyResult"
    and "BacktrackingOptimizer_Optimize truck orders = emptyResult"
    and "GreedyOptimizer_Optimize_by gt truck orders = emptyResult"
  using assms
  by (simp_all add: DPOptimizer_Optimize_def BacktrackingOptimizer_Optimize_def
        GreedyOptimizer_Optimize_by_def sortByValueDensity_by_def backtrack_Nil emptyResult_def)

lemma backtrack_compatible:
  assumes "\<forall>x \<in> set (bestOrders b). \<forall>y \<in> set (bestOrders b). CanCombine x y"
    and "\<forall>x \<in> set cur. \<forall>y \<in> set cur. CanCombine x y"
  shows "\<forall>x \<in> set (bestOrders (backtrack truck os cur i p w v b)).
           \<forall>y \<in> set (bestOrders (backtrack truck os cur i p w v b)). CanCombine x y"
proof (rule backtrack_invariant [where
      I = "\<lambda>b. \<forall>x \<in> set (bestOrders b). \<forall>y \<in> set (bestOrders b). CanCombine x y"
      and C = "\<lambda>cur i p w v. \<forall>x \<in> set cur. \<forall>y \<in> set cur. CanCombine x y"], goal_cases)
  case (1 b cur i p w v)
  then show ?case by simp
next
  case (2 cur i p w v)
  then show ?case
    by (auto simp: list_all_iff CanCombine_refl intro: CanCombine_sym)
next
  case (3 cur i p w v)
  then show ?case by simp
next
  case 4 then show ?case using assms by simp
next
  case 5 then show ?case using assms by simp
qed

lemma greedy_fold_compatible:
  assumes "\<forall>a \<in> set (SelectedOrders r0). \<forall>b \<in> set (SelectedOrders r0). CanCombine a b"
  shows "\<forall>a \<in> set (SelectedOrders (fold (greedy_step truck) xs r0)).
           \<forall>b \<in> set (SelectedOrders (fold (greedy_step truck) xs r0)). CanCombine a b"
  using assms
proof (induction xs arbitrary: r0)
  case Nil
  then show ?case by simp
next
  case (Cons x xs)
  have "\<forall>a \<in> set (SelectedOrders (greedy_step truck x r0)).
          \<forall>b \<in> set (SelectedOrders (greedy_step truck x r0)). CanCombine a b"
    using Cons.prems
    by (auto simp: greedy_step_def list_all_iff CanCombine_refl intro: CanCombine_sym)
  from Cons.IH [OF this] show ?case by simp
qed

lemma selections_compatible:
  shows "DPOptimizer_Optimize truck orders = Inr r \<Longrightarrow> ValidateOrderSet (SelectedOrders r)"
    and "ValidateOrderSet (SelectedOrders (BacktrackingOptimizer_Optimize truck orders))"
    and "ValidateOrderSet (SelectedOrders (GreedyOptimizer_Optimize_by gt truck orders))"
proof -
  show "DPOptimizer_Optimize truck orders = Inr r \<Longrightarrow> ValidateOrderSet (SelectedOrders r)"
    using DP_result [of truck orders r] reachable_ValidateOrderSet by fastforce
  show "ValidateOrderSet (SelectedOrders (BacktrackingOptimizer_Optimize truck orders))"
    unfolding ValidateOrderSet_iff BacktrackingOptimizer_Optimize_def Let_def
    using backtrack_compatible [of "\<lparr>bestPayout = 0, bestOrders = [], bestWeight = 0, bestVolume = 0\<rparr>" "[]"]
    by simp
  show "ValidateOrderSet (SelectedOrders (GreedyOptimizer_Optimize_by gt truck orders))"
    unfolding ValidateOrderSet_iff GreedyOptimizer_Optimize_by_def Let_def
    using greedy_fold_compatible [of emptyResult] by (simp add: emptyResult_def)
qed

lemma at_most_one_selected:
  assumes ms: "mset s \<subseteq># mset os" and vs: "ValidateOrderSet s"
    and inc: "\<forall>i < length os. \<forall>j < length os. i \<noteq> j \<longrightarrow> \<not> CanCombine (os ! i) (os ! j)"
  shows "length s \<le> 1"
proof (rule ccontr)
  assume "\<not> length s \<le> 1"
  then have l2: "2 \<le> length s" by simp
  from mset_subseq_ex [OF ms] obtain s' where s': "subseq s' os" "mset s' = mset s" by blast
  from subseq_mask_ex [OF s'(1)] obtain m where m: "extractOrders m os = s'" by blast
  define idx where "idx = filter (bit m) [0 ..< length os]"
  have s'_idx: "s' = map (\<lambda>i. os ! i) idx" using m by (simp add: extractOrders_bit idx_def)
  have len: "length idx = length s" using s'(2) s'_idx by (metis length_map size_mset)
  have d: "distinct idx" by (simp add: idx_def)
  have li: "0 < length idx" "1 < length idx" using l2 len by linarith+
  then have i0: "idx ! 0 \<in> set idx" and i1: "idx ! 1 \<in> set idx"
    using nth_mem by blast+
  then have b0: "idx ! 0 < length os" and b1: "idx ! 1 < length os" by (simp_all add: idx_def)
  have ne: "idx ! 0 \<noteq> idx ! 1" using d li by (simp add: nth_eq_iff_index_eq)
  have "os ! (idx ! 0) \<in> set s'" "os ! (idx ! 1) \<in> set s'" using i0 i1 s'_idx by auto
  moreover have "set s' = set s" using s'(2) by (metis set_mset_mset)
  ultimately have "CanCombine (os ! (idx ! 0)) (os ! (idx ! 1))"
    using vs unfolding ValidateOrderSet_iff by blast
  with inc b0 b1 ne show False by blast
qed

text \<open>
  Claim C4, amended. An empty order list and a list in which no order individually fits
  the truck make each optimizer return the empty selection with zero totals, without
  error. A list in which no two orders are compatible makes each optimizer select at most
  one order, and the DP optimizer returns without error whenever there are at most 22
  orders.
\<close>

theorem degenerate_inputs:
  "((orders = [] \<or> (\<forall>o1 \<in> set orders. WeightLbs o1 > MaxWeightLbs truck
                                        \<or> VolumeCuft o1 > MaxVolumeCuft truck))
      \<longrightarrow> DPOptimizer_Optimize truck orders = Inr emptyResult
          \<and> BacktrackingOptimizer_Optimize truck orders = emptyResult
          \<and> GreedyOptimizer_Optimize_by gt truck orders = emptyResult)
   \<and> ((\<forall>i < length orders. \<forall>j < length orders. i \<noteq> j
           \<longrightarrow> \<not> CanCombine (orders ! i) (orders ! j))
      \<longrightarrow> (\<forall>r. DPOptimizer_Optimize truck orders = Inr r \<longrightarrow> length (SelectedOrders r) \<le> 1)
          \<and> (length orders \<le> 22 \<longrightarrow> (\<exists>r. DPOptimizer_Optimize truck orders = Inr r))
          \<and> length (SelectedOrders (BacktrackingOptimizer_Optimize truck orders)) \<le> 1
          \<and> length (SelectedOrders (GreedyOptimizer_Optimize_by gt truck orders)) \<le> 1)"
proof (intro conjI impI)
  assume a: "orders = [] \<or> (\<forall>o1 \<in> set orders. WeightLbs o1 > MaxWeightLbs truck
                                        \<or> VolumeCuft o1 > MaxVolumeCuft truck)"
  then have f: "FilterFeasibleOrders truck orders = []"
    by (auto simp: FilterFeasibleOrders_def filter_empty_conv)
  show "DPOptimizer_Optimize truck orders = Inr emptyResult"
    "BacktrackingOptimizer_Optimize truck orders = emptyResult"
    "GreedyOptimizer_Optimize_by gt truck orders = emptyResult"
    using optimizers_on_no_feasible_order [OF f] by simp_all
next
  assume inc: "\<forall>i < length orders. \<forall>j < length orders. i \<noteq> j
           \<longrightarrow> \<not> CanCombine (orders ! i) (orders ! j)"
  show "\<forall>r. DPOptimizer_Optimize truck orders = Inr r \<longrightarrow> length (SelectedOrders r) \<le> 1"
    using at_most_one_selected [OF _ _ inc] DP_consistent selections_compatible(1)
    by (simp add: result_consistent_def)
  show "length (SelectedOrders (BacktrackingOptimizer_Optimize truck orders)) \<le> 1"
    using at_most_one_selected [OF _ selections_compatible(2) inc] BT_consistent [of orders truck]
    by (simp add: result_consistent_def)
  show "length (SelectedOrders (GreedyOptimizer_Optimize_by gt truck orders)) \<le> 1"
    using at_most_one_selected [OF _ selections_compatible(3) inc] Greedy_consistent [of orders gt truck]
    by (simp add: result_consistent_def)
  assume "length orders \<le> 22"
  then show "\<exists>r. DPOptimizer_Optimize truck orders = Inr r"
    using DP_returns [of orders truck] by simp
qed

theorem degenerate_inputs_witness:
  "DPOptimizer_Optimize truck44 [] = Inr emptyResult
   \<and> BacktrackingOptimizer_Optimize truck44 [] = emptyResult
   \<and> GreedyOptimizer_Optimize_by density_gt truck44 [] = emptyResult
   \<and> DPOptimizer_Optimize truck44 scenarioB = Inr emptyResult
   \<and> BacktrackingOptimizer_Optimize truck44 scenarioB = emptyResult
   \<and> GreedyOptimizer_Optimize_by density_gt truck44 scenarioB = emptyResult
   \<and> DPOptimizer_Optimize truck44 [orderH, orderN] = Inr resultN
   \<and> length (SelectedOrders resultN) \<le> 1
   \<and> length (SelectedOrders (BacktrackingOptimizer_Optimize truck44 [orderH, orderN])) \<le> 1
   \<and> length (SelectedOrders (GreedyOptimizer_Optimize_by density_gt truck44 [orderH, orderN])) \<le> 1"
proof -
  have b: "\<forall>o1 \<in> set scenarioB. WeightLbs o1 > MaxWeightLbs truck44 \<or> VolumeCuft o1 > MaxVolumeCuft truck44"
    by (simp add: scenarioB_def mkOrder_def truck44_def)
  have c: "\<forall>i < length [orderH, orderN]. \<forall>j < length [orderH, orderN]. i \<noteq> j
             \<longrightarrow> \<not> CanCombine ([orderH, orderN] ! i) ([orderH, orderN] ! j)"
    by (auto simp: less_Suc_eq CanCombine_def orderH_def orderN_def mkOrder_def)
  have ev: "DPOptimizer_Optimize truck44 [orderH, orderN] = Inr resultN" by code_simp
  show ?thesis
    using degenerate_inputs [of "[]" truck44 density_gt]
      degenerate_inputs [of scenarioB truck44 density_gt]
      degenerate_inputs [of "[orderH, orderN]" truck44 density_gt] b c ev
    by simp
qed

text \<open>
  Scenario C: the two orders are not compatible, and each optimizer selects the one that
  pays more, not the empty selection.
\<close>

theorem degenerate_inputs_counterexample:
  "\<not> CanCombine orderH orderN \<and> \<not> CanCombine orderN orderH
   \<and> DPOptimizer_Optimize truck44 [orderH, orderN] = Inr resultN
   \<and> SelectedOrders resultN = [orderN] \<and> TotalPayout resultN = 150000
   \<and> BacktrackingOptimizer_Optimize truck44 [orderH, orderN] = resultN
   \<and> GreedyOptimizer_Optimize truck44 [orderH, orderN] = resultN"
proof -
  have "\<not> CanCombine orderH orderN" "\<not> CanCombine orderN orderH"
    by (simp_all add: CanCombine_def orderH_def orderN_def mkOrder_def)
  moreover have "DPOptimizer_Optimize truck44 [orderH, orderN] = Inr resultN" by code_simp
  moreover have "BacktrackingOptimizer_Optimize truck44 [orderH, orderN] = resultN" by code_simp
  moreover have "GreedyOptimizer_Optimize truck44 [orderH, orderN] = resultN" by code_simp
  ultimately show ?thesis by (simp add: resultN_def)
qed

section \<open>The Pareto loop\<close>












section \<open>Scalarized payouts in the reported totals\<close>

text \<open>
  Claim C1 at a concrete request. With the weights \<open>(1/2, 1/2)\<close> and one order of payout
  1000 that fills the truck, the response of \<open>OptimizeLoad\<close> reports the scalarized
  score 5500 as total payout, although the payout of the selected order is 1000; the
  weight and volume totals are those of the selected order. The same happens in a
  \<open>ParetoSolution\<close>: the second solution for \<open>ordersXY\<close> reports 2073 for an order of
  payout 92.
\<close>

theorem scalarized_payout_reported:
  "OptimizeLoad NewOptimizerService truck100 [orderFull] (Some balancedConfig) = Inr respFull
   \<and> SelectedOrderIDs respFull = [ID orderFull]
   \<and> RespTotalPayoutCents respFull = 5500
   \<and> Payout orderFull = 1000
   \<and> RespTotalWeightLbs respFull = WeightLbs orderFull
   \<and> RespTotalVolumeCuft respFull = VolumeCuft orderFull
   \<and> GetParetoOptimalSolutions NewOptimizerService truck100 ordersXY 5 = Inr [solY]
   \<and> OrderIDs solY = [ID (ordersXY ! 1)]
   \<and> TotalPayoutCents solY = 2073
   \<and> Payout (ordersXY ! 1) = 92"
proof -
  have a: "OptimizeLoad NewOptimizerService truck100 [orderFull] (Some balancedConfig) = Inr respFull"
    by code_simp
  have b: "GetParetoOptimalSolutions NewOptimizerService truck100 ordersXY 5 = Inr [solY]"
    by code_simp
  show ?thesis
    using a b by (simp add: respFull_def orderFull_def mkOrder_def solY_def ordersXY_def)
qed

theorem scalarized_payout_reported_witness:
  "OptimizeLoad NewOptimizerService truck100 [orderFull] (Some balancedConfig) = Inr respFull
   \<and> RespTotalPayoutCents respFull \<noteq> Payout orderFull
   \<and> TotalPayoutCents solY \<noteq> Payout (ordersXY ! 1)"
  using scalarized_payout_reported by simp

end
